theory Spec2Isabelle
  imports Main "HOL-Library.AList"
begin

section \<open>Wire values\<close>

text \<open>
  The payloads that cross the dispatch layer of \<^verbatim>\<open>src/dispatchers/dispatcher.ts\<close> are
  JavaScript values: the JSON values of the protocol, \<^verbatim>\<open>undefined\<close>, functions, instances
  of \<^verbatim>\<open>Dispatcher\<close>, and the objects that are neither plain, nor arrays, nor dispatchers
  (a \<^verbatim>\<open>Date\<close>, an \<^verbatim>\<open>Error\<close>, a \<^verbatim>\<open>Buffer\<close>, an instance of a class).

  \<^item> A \<^verbatim>\<open>Dispatcher\<close> instance inside a payload is represented by its
    \<^verbatim>\<open>readonly _guid\<close>, the only field the serialisation reads.
  \<^item> A plain object \<open>Obj\<close> is the list of its own enumerable properties in
    \<^verbatim>\<open>Object.keys\<close> order.
  \<^item> Any other object \<open>Instance\<close> is the name of its class, its own enumerable
    properties in \<^verbatim>\<open>Object.keys\<close> order, and the other properties a read finds on it
    (its own non-enumerable ones, such as the \<^verbatim>\<open>message\<close> of an \<^verbatim>\<open>Error\<close>, and those of
    its prototype chain).
  \<^item> A function \<open>Func\<close> is its name; \<^verbatim>\<open>typeof\<close> gives \<^verbatim>\<open>'function'\<close> for it, not
    \<^verbatim>\<open>'object'\<close>.
  \<^item> Numbers are integers here: no operation of this file computes with them, they are
    only tested for being zero and passed on.
\<close>

datatype jsval =
    Undefined
  | Null
  | Bool bool
  | Num int
  | Str string
  | Func string
  | DispatcherV string
  | Arr "jsval list"
  | Obj "(string \<times> jsval) list"
  | Instance string "(string \<times> jsval) list" "(string \<times> jsval) list"

text \<open>JavaScript's \<^verbatim>\<open>!!v\<close>: the values that pass an \<^verbatim>\<open>if (v)\<close>.\<close>

fun truthy :: "jsval \<Rightarrow> bool" where
  "truthy Undefined = False"
| "truthy Null = False"
| "truthy (Bool b) = b"
| "truthy (Num n) = (n \<noteq> 0)"
| "truthy (Str s) = (s \<noteq> [])"
| "truthy (Func f) = True"
| "truthy (DispatcherV g) = True"
| "truthy (Arr ps) = True"
| "truthy (Obj kvs) = True"
| "truthy (Instance cls kvs others) = True"

text \<open>\<^verbatim>\<open>typeof v === 'object'\<close>; \<^verbatim>\<open>typeof null\<close> is \<^verbatim>\<open>'object'\<close> too.\<close>

fun typeofObject :: "jsval \<Rightarrow> bool" where
  "typeofObject Null = True"
| "typeofObject (DispatcherV g) = True"
| "typeofObject (Arr ps) = True"
| "typeofObject (Obj kvs) = True"
| "typeofObject (Instance cls kvs others) = True"
| "typeofObject Undefined = False"
| "typeofObject (Bool b) = False"
| "typeofObject (Num n) = False"
| "typeofObject (Str s) = False"
| "typeofObject (Func f) = False"

text \<open>
  \<^verbatim>\<open>Object.keys\<close> with the values under the keys: the own enumerable properties of a
  value that has passed the tests for a dispatcher and for an array (line 278 is reached
  by plain objects and by the other objects only).
\<close>

fun ownEnumerable :: "jsval \<Rightarrow> (string \<times> jsval) list" where
  "ownEnumerable (Obj kvs) = kvs"
| "ownEnumerable (Instance cls kvs others) = kvs"
| "ownEnumerable v = []"

text \<open>
  \<^verbatim>\<open>DispatcherConnection._replaceDispatchersWithGuids\<close> (lines 270-284). The source tests,
  in this order: falsy payload (returned as it is), \<^verbatim>\<open>instanceof Dispatcher\<close>,
  \<^verbatim>\<open>Array.isArray\<close>, \<^verbatim>\<open>typeof payload === 'object'\<close>, and returns every other payload
  as it is. The \<^verbatim>\<open>typeof\<close> branch is taken by every object left, plain or not, and
  builds a new plain object (\<^verbatim>\<open>const result: any = {}\<close>) from the own enumerable
  properties of the payload. The equations below are that chain, one per kind of value;
  lemma \<open>replaceDispatchersWithGuids_chain\<close> states it in the source's order.
\<close>

fun replaceDispatchersWithGuids :: "jsval \<Rightarrow> jsval" where
  "replaceDispatchersWithGuids (DispatcherV g) = Obj [(''guid'', Str g)]"
| "replaceDispatchersWithGuids (Arr ps) = Arr (map replaceDispatchersWithGuids ps)"
| "replaceDispatchersWithGuids (Obj kvs) =
     Obj (map (\<lambda>kv. (fst kv, replaceDispatchersWithGuids (snd kv))) kvs)"
| "replaceDispatchersWithGuids (Instance cls kvs others) =
     Obj (map (\<lambda>kv. (fst kv, replaceDispatchersWithGuids (snd kv))) kvs)"
| "replaceDispatchersWithGuids Undefined = Undefined"
| "replaceDispatchersWithGuids Null = Null"
| "replaceDispatchersWithGuids (Bool b) = Bool b"
| "replaceDispatchersWithGuids (Num n) = Num n"
| "replaceDispatchersWithGuids (Str s) = Str s"
| "replaceDispatchersWithGuids (Func f) = Func f"

text \<open>Whether an instance of \<^verbatim>\<open>Dispatcher\<close> occurs anywhere inside a value: the value
  itself, an element of an array, or a property of an object (enumerable or not).\<close>

fun containsDispatcher :: "jsval \<Rightarrow> bool" where
  "containsDispatcher (DispatcherV g) = True"
| "containsDispatcher (Arr ps) = (\<exists>p \<in> set ps. containsDispatcher p)"
| "containsDispatcher (Obj kvs) = (\<exists>kv \<in> set kvs. containsDispatcher (snd kv))"
| "containsDispatcher (Instance cls kvs others) =
     ((\<exists>kv \<in> set kvs. containsDispatcher (snd kv))
      \<or> (\<exists>kv \<in> set others. containsDispatcher (snd kv)))"
| "containsDispatcher Undefined = False"
| "containsDispatcher Null = False"
| "containsDispatcher (Bool b) = False"
| "containsDispatcher (Num n) = False"
| "containsDispatcher (Str s) = False"
| "containsDispatcher (Func f) = False"

text \<open>Whether an object that is not plain occurs anywhere inside a value.\<close>

fun containsInstance :: "jsval \<Rightarrow> bool" where
  "containsInstance (Instance cls kvs others) = True"
| "containsInstance (Arr ps) = (\<exists>p \<in> set ps. containsInstance p)"
| "containsInstance (Obj kvs) = (\<exists>kv \<in> set kvs. containsInstance (snd kv))"
| "containsInstance (DispatcherV g) = False"
| "containsInstance Undefined = False"
| "containsInstance Null = False"
| "containsInstance (Bool b) = False"
| "containsInstance (Num n) = False"
| "containsInstance (Str s) = False"
| "containsInstance (Func f) = False"



fun getProp :: "jsval \<Rightarrow> string \<Rightarrow> jsval" where
  "getProp (Obj kvs) k = (case map_of kvs k of None \<Rightarrow> Undefined | Some v \<Rightarrow> v)"
| "getProp (Instance cls kvs others) k =
     (case map_of kvs k of
        Some v \<Rightarrow> v
      | None \<Rightarrow> (case map_of others k of None \<Rightarrow> Undefined | Some v \<Rightarrow> v))"
| "getProp v k = Undefined"

section \<open>Errors and completions\<close>

text \<open>
  A thrown value is an \<^verbatim>\<open>Error\<close> object: its class name and its message. A call either
  returns or throws; the connection it leaves behind is kept in both cases, since
  JavaScript undoes nothing when an exception passes.
\<close>

datatype jsError = JsError (errName: string) (errMessage: string)

datatype 'a completion = Returned 'a | Threw jsError

text \<open>\<^verbatim>\<open>assert(value)\<close> of \<^verbatim>\<open>utils/utils\<close> throws an \<^verbatim>\<open>Error\<close> when the value is falsy.\<close>

definition assertionError :: jsError where
  "assertionError = JsError ''Error'' ''Assertion error''"

text \<open>Reading or writing a property of \<^verbatim>\<open>undefined\<close> throws a \<^verbatim>\<open>TypeError\<close> (the \<^verbatim>\<open>!\<close>
  of TypeScript checks nothing at run time).\<close>

definition cannotReadOfUndefined :: "string \<Rightarrow> jsError" where
  "cannotReadOfUndefined prop =
     JsError ''TypeError'' (''Cannot read property '' @ prop @ '' of undefined'')"

definition cannotSetOfUndefined :: "string \<Rightarrow> jsError" where
  "cannotSetOfUndefined prop =
     JsError ''TypeError'' (''Cannot set property '' @ prop @ '' of undefined'')"

text \<open>
  JavaScript has no reference to an object that does not exist. The store below is a
  list, so the model has addresses outside it; the operations answer those with this
  error, which no run of the source produces.
\<close>

definition danglingReference :: jsError where
  "danglingReference = JsError ''ModelError'' ''no object at this address''"

section \<open>The dispatcher tree\<close>

text \<open>
  The wrapped domain object (\<^verbatim>\<open>_object\<close>): all that \<^verbatim>\<open>dispatch\<close> reads of it is whether it
  is an \<^verbatim>\<open>SdkObject\<close> and, if so, \<^verbatim>\<open>attribution.page?.uniqueId\<close> and
  \<^verbatim>\<open>attribution.frame?.uniqueId\<close>. The back reference \<^verbatim>\<open>object[dispatcherSymbol]\<close> that the
  constructor writes is read by no function under study and is left out.
\<close>

datatype domainObject =
    PlainObject
  | SdkObject (pageId: "string option") (frameId: "string option")

fun isSdkObject :: "domainObject \<Rightarrow> bool" where
  "isSdkObject PlainObject = False"
| "isSdkObject (SdkObject p f) = True"

type_synonym addr = nat

text \<open>
  An instance of \<^verbatim>\<open>class Dispatcher\<close> (lines 44-56). A \<^verbatim>\<open>Map<string, Dispatcher>\<close> is
  an association list in insertion order: \<^verbatim>\<open>set\<close> is \<open>AList.update\<close> (in place, or
  appended), \<^verbatim>\<open>delete\<close> is \<open>AList.delete\<close>, \<^verbatim>\<open>has\<close>/\<^verbatim>\<open>get\<close> are \<open>map_of\<close>. The field
  \<^verbatim>\<open>_connection\<close> is not a field here: a store holds the nodes of one connection.
\<close>

record dispatcher =
  d_isScope :: bool
  d_parent :: "addr option"
  d_scope :: "addr option"
  d_dispatchers :: "(string \<times> addr) list"
  d_disposed :: bool
  d_guid :: string
  d_type :: string
  d_object :: domainObject

text \<open>What \<^verbatim>\<open>onmessage\<close> is called with: an event \<^verbatim>\<open>{guid, method, params}\<close>, a reply
  \<^verbatim>\<open>{id, result}\<close> or a reply \<^verbatim>\<open>{id, error}\<close>.\<close>

datatype wire =
    Event string string jsval
  | ReplyResult nat jsval
  | ReplyError nat jsval

text \<open>\<^verbatim>\<open>CallMetadata\<close> as \<^verbatim>\<open>dispatch\<close> builds it (lines 201-212): the keys the object
  literal names, the optional \<^verbatim>\<open>apiName\<close>, \<^verbatim>\<open>stack\<close> and \<^verbatim>\<open>error\<close> (\<^verbatim>\<open>undefined\<close> when
  unset), and in \<open>cm_rest\<close> every other property that the spread of line 203 copies in.
  The \<^verbatim>\<open>id\<close> is a value and not a number, since the spread comes after it and may
  replace it.\<close>

record callMetadata =
  cm_id :: jsval
  cm_stack :: jsval
  cm_pageId :: "string option"
  cm_frameId :: "string option"
  cm_startTime :: nat
  cm_endTime :: nat
  cm_type :: string
  cm_method :: string
  cm_params :: jsval
  cm_log :: "jsval list"
  cm_apiName :: jsval
  cm_error :: jsval
  cm_rest :: "(string \<times> jsval) list"

text \<open>The calls made to the instrumentation sink, each with the record as it is at the
  time of the call.\<close>

datatype instrumentationCall =
    OnBeforeCall domainObject callMetadata
  | OnCallLog string jsval domainObject callMetadata
  | OnAfterCall domainObject callMetadata

text \<open>
  A \<^verbatim>\<open>DispatcherConnection\<close> with everything it reaches: the store of its dispatcher
  nodes (\<open>heap\<close>, a node's address is its index), the registry \<^verbatim>\<open>_dispatchers\<close>, the
  root, the pending-wait table \<^verbatim>\<open>_waitOperations\<close>, and what it has done to the outside:
  the messages handed to \<^verbatim>\<open>onmessage\<close> (\<open>sent\<close>), the calls to the instrumentation sink
  (\<open>notified\<close>) and the number of clock readings taken (\<open>clockReads\<close>).
\<close>

record connection =
  heap :: "dispatcher list"
  c_dispatchers :: "(string \<times> addr) list"
  c_rootDispatcher :: addr
  c_waitOperations :: "(jsval \<times> callMetadata) list"
  sent :: "wire list"
  notified :: "instrumentationCall list"
  clockReads :: nat

definition modify :: "addr \<Rightarrow> (dispatcher \<Rightarrow> dispatcher) \<Rightarrow> connection \<Rightarrow> connection" where
  "modify a f c = c\<lparr>heap := (heap c)[a := f (heap c ! a)]\<rparr>"

text \<open>\<^verbatim>\<open>sendMessageToClient\<close> (lines 137-139).\<close>

definition sendMessageToClient :: "string \<Rightarrow> string \<Rightarrow> jsval \<Rightarrow> connection \<Rightarrow> connection" where
  "sendMessageToClient g m params c =
     c\<lparr>sent := sent c @ [Event g m (replaceDispatchersWithGuids params)]\<rparr>"

subsection \<open>Construction\<close>

datatype parentRef = ParentConnection | ParentDispatcher addr

text \<open>
  The constructor (lines 58-80). The caller gives the identifier (the default
  \<^verbatim>\<open>type + '@' + createGuid()\<close> is \<open>defaultGuid\<close> of a generated string). When the
  first assertion throws, nothing refers to the new object and the connection is as it
  was; from \<^verbatim>\<open>_connection._dispatchers.set(guid, this)\<close> on the object is reachable, so
  the model puts it into the store there (with the fields \<^verbatim>\<open>_type\<close>, \<^verbatim>\<open>_guid\<close> and
  \<^verbatim>\<open>_object\<close>, which the source assigns a few lines later, already set).
\<close>

definition defaultGuid :: "string \<Rightarrow> string \<Rightarrow> string" where
  "defaultGuid type created = type @ ''@'' @ created"

definition newDispatcher ::
  "parentRef \<Rightarrow> domainObject \<Rightarrow> string \<Rightarrow> jsval \<Rightarrow> bool \<Rightarrow> string \<Rightarrow> connection
     \<Rightarrow> addr completion \<times> connection" where
  "newDispatcher parent object type initializer isScope guid c =
     (let this = length (heap c);
          par = (case parent of ParentConnection \<Rightarrow> None | ParentDispatcher p \<Rightarrow> Some p)
      in if (case par of None \<Rightarrow> False | Some p \<Rightarrow> length (heap c) \<le> p)
         then (Threw danglingReference, c)
         else if map_of (c_dispatchers c) guid \<noteq> None then (Threw assertionError, c)
         else
           let c1 = c\<lparr>heap := heap c @
                      [\<lparr>d_isScope = isScope, d_parent = par,
                        d_scope = (if isScope then Some this else par),
                        d_dispatchers = [], d_disposed = False,
                        d_guid = guid, d_type = type, d_object = object\<rparr>],
                    c_dispatchers := AList.update guid this (c_dispatchers c)\<rparr>
           in case par of
                None \<Rightarrow> (Returned this, c1)
              | Some p \<Rightarrow>
                  if map_of (d_dispatchers (heap c1 ! p)) guid \<noteq> None
                  then (Threw assertionError, c1)
                  else
                    let c2 = modify p (\<lambda>d. d\<lparr>d_dispatchers :=
                                 AList.update guid this (d_dispatchers d)\<rparr>) c1
                    in (Returned this,
                        sendMessageToClient (d_guid (heap c2 ! p)) ''__create__''
                          (Obj [(''type'', Str type), (''initializer'', initializer),
                                (''guid'', Str guid)]) c2))"

text \<open>The constructor of \<^verbatim>\<open>DispatcherConnection\<close> creates the root (lines 123-127, 142):
  a scope with the empty identifier, the empty type and no parent.\<close>

definition emptyConnection :: connection where
  "emptyConnection =
     \<lparr>heap = [], c_dispatchers = [], c_rootDispatcher = 0, c_waitOperations = [],
      sent = [], notified = [], clockReads = 0\<rparr>"

definition newConnection :: connection where
  "newConnection =
     snd (newDispatcher ParentConnection PlainObject [] (Obj []) True [] emptyConnection)"

subsection \<open>Events\<close>

text \<open>\<^verbatim>\<open>_dispatchEvent\<close> (lines 82-90); \<open>underTest\<close> is what \<^verbatim>\<open>isUnderTest()\<close> returns, and
  \<^verbatim>\<open>params\<close> defaults to \<^verbatim>\<open>{}\<close> when it is \<^verbatim>\<open>undefined\<close>.\<close>

definition dispatchEvent ::
  "bool \<Rightarrow> addr \<Rightarrow> string \<Rightarrow> jsval \<Rightarrow> connection \<Rightarrow> unit completion \<times> connection" where
  "dispatchEvent underTest this meth params c =
     (if length (heap c) \<le> this then (Threw danglingReference, c)
      else if d_disposed (heap c ! this) then
        (if underTest
         then (Threw (JsError ''Error'' (d_guid (heap c ! this) @ '' is sending '' @ [CHR 0x22]
                        @ meth @ [CHR 0x22] @ '' event after being disposed'')), c)
         else (Returned (), c))
      else (Returned (),
            sendMessageToClient (d_guid (heap c ! this)) meth
              (if params = Undefined then Obj [] else params) c))"

subsection \<open>Disposal\<close>

text \<open>
  \<^verbatim>\<open>_dispose\<close> (lines 92-108), in the source's steps: the assertion; the flag
  (\<open>markDisposed\<close>); "clean up from parent and connection" (\<open>cleanUp\<close>); the loop over a
  copy of the children, each disposed in turn, an exception of a child ending the loop
  and the call (\<open>disposeAll\<close>); then \<^verbatim>\<open>_dispatchers.clear()\<close> and, for a scope, the
  \<^verbatim>\<open>__dispose__\<close> message (\<open>finishDispose\<close>).
\<close>

definition markDisposed :: "addr \<Rightarrow> connection \<Rightarrow> connection" where
  "markDisposed this c = modify this (\<lambda>d. d\<lparr>d_disposed := True\<rparr>) c"

definition cleanUp :: "addr \<Rightarrow> connection \<Rightarrow> connection" where
  "cleanUp this c =
     (let c1 = (case d_parent (heap c ! this) of
                  None \<Rightarrow> c
                | Some p \<Rightarrow> modify p (\<lambda>d. d\<lparr>d_dispatchers :=
                               AList.delete (d_guid (heap c ! this)) (d_dispatchers d)\<rparr>) c)
      in c1\<lparr>c_dispatchers := AList.delete (d_guid (heap c1 ! this)) (c_dispatchers c1)\<rparr>)"

definition childDispatchers :: "addr \<Rightarrow> connection \<Rightarrow> addr list" where
  "childDispatchers this c = map snd (d_dispatchers (heap c ! this))"

definition finishDispose :: "addr \<Rightarrow> connection \<Rightarrow> connection" where
  "finishDispose this c =
     (let c1 = modify this (\<lambda>d. d\<lparr>d_dispatchers := []\<rparr>) c
      in if d_isScope (heap c1 ! this)
         then sendMessageToClient (d_guid (heap c1 ! this)) ''__dispose__'' (Obj []) c1
         else c1)"

function dispose :: "addr \<Rightarrow> connection \<Rightarrow> unit completion \<times> connection"
  and disposeAll :: "addr list \<Rightarrow> connection \<Rightarrow> unit completion \<times> connection" where
  "dispose this c =
     (if length (heap c) \<le> this then (Threw danglingReference, c)
      else if d_disposed (heap c ! this) then (Threw assertionError, c)
      else
        case disposeAll (childDispatchers this (cleanUp this (markDisposed this c)))
               (cleanUp this (markDisposed this c)) of
          (Threw e, c') \<Rightarrow> (Threw e, c')
        | (Returned u, c') \<Rightarrow> (Returned (), finishDispose this c'))"
| "disposeAll [] c = (Returned (), c)"
| "disposeAll (d # ds) c =
     (case dispose d c of
        (Threw e, c') \<Rightarrow> (Threw e, c')
      | (Returned u, c') \<Rightarrow> disposeAll ds c')"
  by pat_completeness auto

text \<open>
  Termination: every call of \<open>dispose\<close> that gets past the assertion sets the flag of a
  node whose flag was not set, and no step clears a flag, so the set of nodes not yet
  disposed shrinks.
\<close>

definition liveSet :: "connection \<Rightarrow> addr set" where
  "liveSet c = {a. a < length (heap c) \<and> \<not> d_disposed (heap c ! a)}"

lemma length_heap_modify [simp]: "length (heap (modify a f c)) = length (heap c)"
  by (simp add: modify_def)

lemma nth_heap_modify:
  "x < length (heap c) \<Longrightarrow>
     heap (modify a f c) ! x = (if x = a then f (heap c ! a) else heap c ! x)"
  by (simp add: modify_def nth_list_update)

lemma liveSet_finite: "finite (liveSet c)"
  by (simp add: liveSet_def)

lemma liveSet_modify_same:
  "(\<And>d. d_disposed (f d) = d_disposed d) \<Longrightarrow> liveSet (modify a f c) = liveSet c"
  unfolding liveSet_def by (rule Collect_cong) (simp add: nth_heap_modify cong: conj_cong)

lemma liveSet_markDisposed: "liveSet (markDisposed a c) = liveSet c - {a}"
  unfolding liveSet_def markDisposed_def
  by (rule set_eqI) (simp add: nth_heap_modify cong: conj_cong)

lemma liveSet_cleanUp: "liveSet (cleanUp a c) = liveSet c"
proof -
  have "liveSet (c'\<lparr>c_dispatchers := r\<rparr>) = liveSet c'" for c' r
    by (simp add: liveSet_def)
  then show ?thesis
    by (simp add: cleanUp_def Let_def liveSet_modify_same split: option.split)
qed

lemma liveSet_finishDispose: "liveSet (finishDispose a c) = liveSet c"
proof -
  have "liveSet (sendMessageToClient g m p c') = liveSet c'" for g m p c'
    by (simp add: liveSet_def sendMessageToClient_def)
  then show ?thesis
    by (simp add: finishDispose_def Let_def liveSet_modify_same)
qed

lemma dispose_liveSet_dom:
  "dispose_disposeAll_dom (Inl (this, c)) \<Longrightarrow> liveSet (snd (dispose this c)) \<subseteq> liveSet c"
  "dispose_disposeAll_dom (Inr (ds, c)) \<Longrightarrow> liveSet (snd (disposeAll ds c)) \<subseteq> liveSet c"
proof (induction this c and ds c rule: dispose_disposeAll.pinduct)
  case (1 this c)
  show ?case
  proof (cases "length (heap c) \<le> this \<or> d_disposed (heap c ! this)")
    case True
    then show ?thesis by (auto simp: dispose.psimps [OF "1.hyps"])
  next
    case False
    let ?c3 = "cleanUp this (markDisposed this c)"
    have "liveSet (snd (disposeAll (childDispatchers this ?c3) ?c3)) \<subseteq> liveSet ?c3"
      using False by (intro "1.IH") auto
    moreover have "liveSet ?c3 \<subseteq> liveSet c"
      by (simp add: liveSet_cleanUp liveSet_markDisposed)
    ultimately show ?thesis using False
      by (auto simp: dispose.psimps [OF "1.hyps"] liveSet_finishDispose
          split: prod.splits completion.splits)
  qed
next
  case (2 c)
  then show ?case by (simp add: disposeAll.psimps(1))
next
  case (3 d ds c)
  show ?case
  proof (cases "dispose d c")
    case (Pair r c')
    have le: "liveSet c' \<subseteq> liveSet c" using "3.IH"(1) Pair by simp
    show ?thesis
    proof (cases r)
      case (Returned u)
      then have "liveSet (snd (disposeAll ds c')) \<subseteq> liveSet c'"
        using "3.IH"(2) [OF Pair [symmetric]] by simp
      with le show ?thesis
        using Pair Returned by (auto simp add: disposeAll.psimps(2) [OF "3.hyps"])
    next
      case (Threw e)
      with le show ?thesis
        using Pair by (simp add: disposeAll.psimps(2) [OF "3.hyps"])
    qed
  qed
qed

termination dispose
proof (relation "measures
    [\<lambda>x. case x of Inl (a, c) \<Rightarrow> card (liveSet c) | Inr (ds, c) \<Rightarrow> card (liveSet c),
     \<lambda>x. case x of Inl (a, c) \<Rightarrow> 0 | Inr (ds, c) \<Rightarrow> Suc (length ds)]", goal_cases)
  case 1
  then show ?case by simp
next
  case (2 this c)
  then have "this \<in> liveSet c" by (simp add: liveSet_def)
  then have "card (liveSet c - {this}) < card (liveSet c)"
    by (intro card_Diff1_less liveSet_finite)
  then show ?case by (simp add: liveSet_cleanUp liveSet_markDisposed)
next
  case (3 d ds c)
  then show ?case by simp
next
  case (4 d ds c x y u)
  from 4(1) have "snd (dispose d c) = y" by (metis snd_conv)
  then have "liveSet y \<subseteq> liveSet c" using dispose_liveSet_dom(1) [OF 4(3)] by simp
  then have "card (liveSet y) \<le> card (liveSet c)"
    by (intro card_mono liveSet_finite)
  then show ?case by auto
qed


section \<open>Dispatching a message\<close>

subsection \<open>The introspection snapshot\<close>

text \<open>
  \<^verbatim>\<open>_debugScopeState\<close> (lines 110-115) recurses through the children maps with nothing to
  stop it on a cyclic store, so the model takes the depth the call stack allows:
  \<open>None\<close> is a call that does not return.
\<close>

fun debugScopeState :: "nat \<Rightarrow> connection \<Rightarrow> addr \<Rightarrow> jsval option" where
  "debugScopeState 0 c a = None"
| "debugScopeState (Suc n) c a =
     (if length (heap c) \<le> a then None
      else case those (map (debugScopeState n c) (childDispatchers a c)) of
             None \<Rightarrow> None
           | Some objects \<Rightarrow>
               Some (Obj [(''_guid'', Str (d_guid (heap c ! a))), (''objects'', Arr objects)]))"

subsection \<open>The outside of the connection\<close>

text \<open>An inbound message \<^verbatim>\<open>{id, guid, method, params, metadata}\<close> (line 177).\<close>

record message =
  m_id :: nat
  m_guid :: string
  m_method :: string
  m_params :: jsval
  m_metadata :: jsval

text \<open>
  What \<^verbatim>\<open>dispatch\<close> calls and does not define, taken as parameters: the two validators
  built from the external scheme (\<^verbatim>\<open>_validateParams\<close>, \<^verbatim>\<open>_validateMetadata\<close>, lines
  159-169; either may throw; the result of the second is used by the spread of line 203
  only, which reads its own enumerable properties in their order and nothing when it is
  \<^verbatim>\<open>undefined\<close>, so the validator is taken to return that list of properties), whether the dispatcher's class has a function of a given
  name, the domain method itself (the log lines it pushes on the call's record, then its
  result or the error it throws), \<^verbatim>\<open>serializeError\<close>, the constant
  \<^verbatim>\<open>kBrowserOrContextClosedError\<close>, the clock (\<open>clock env n\<close> is the \<open>n\<close>-th reading of
  \<^verbatim>\<open>monotonicTime()\<close>) and JavaScript's conversion of a value to a string. The hooks of
  the instrumentation sink are recorded in \<open>notified\<close> and taken not to throw; the effect
  of a domain method on the connection itself (nodes it creates or disposes, events it
  sends) is not part of one \<^verbatim>\<open>dispatch\<close> here.
\<close>

record env =
  validateParams :: "string \<Rightarrow> string \<Rightarrow> jsval \<Rightarrow> jsError + jsval"
  validateMetadata :: "jsval \<Rightarrow> jsError + (string \<times> jsval) list"
  implements :: "dispatcher \<Rightarrow> string \<Rightarrow> bool"
  callMethod :: "dispatcher \<Rightarrow> string \<Rightarrow> jsval \<Rightarrow> callMetadata \<Rightarrow> jsval list \<times> (jsError + jsval)"
  serializeError :: "jsError \<Rightarrow> jsval"
  kBrowserOrContextClosedError :: string
  clock :: "nat \<Rightarrow> nat"
  toStringJS :: "jsval \<Rightarrow> string"

definition monotonicTime :: "env \<Rightarrow> connection \<Rightarrow> nat \<times> connection" where
  "monotonicTime env c = (clock env (clockReads c), c\<lparr>clockReads := Suc (clockReads c)\<rparr>)"

text \<open>\<^verbatim>\<open>this.onmessage(...)\<close> with a reply, and a call of an instrumentation hook.\<close>

definition reply :: "wire \<Rightarrow> connection \<Rightarrow> connection" where
  "reply w c = c\<lparr>sent := sent c @ [w]\<rparr>"

definition notify :: "instrumentationCall \<Rightarrow> connection \<Rightarrow> connection" where
  "notify n c = c\<lparr>notified := notified c @ [n]\<rparr>"

text \<open>
  \<^verbatim>\<open>typeof dispatcher[method] === 'function'\<close> and the call \<^verbatim>\<open>dispatcher[method](...)\<close>:
  \<^verbatim>\<open>waitForEventInfo\<close> is the method of \<^verbatim>\<open>class Dispatcher\<close> itself (lines 117-119), which
  does nothing and returns \<^verbatim>\<open>undefined\<close>; every other name is the subclass's.
\<close>

definition hasMethod :: "env \<Rightarrow> dispatcher \<Rightarrow> string \<Rightarrow> bool" where
  "hasMethod env d meth = (meth = ''waitForEventInfo'' \<or> implements env d meth)"

definition invokeMethod ::
  "env \<Rightarrow> dispatcher \<Rightarrow> string \<Rightarrow> jsval \<Rightarrow> callMetadata \<Rightarrow> jsval list \<times> (jsError + jsval)" where
  "invokeMethod env d meth validParams cm =
     (if meth = ''waitForEventInfo'' then ([], Inr Undefined)
      else callMethod env d meth validParams cm)"

text \<open>The \<^verbatim>\<open>try\<close> of lines 190-198: both validations, then the check that the method
  exists; the first error is the one caught.\<close>

definition validateCall ::
  "env \<Rightarrow> dispatcher \<Rightarrow> message \<Rightarrow> jsError + (jsval \<times> (string \<times> jsval) list)" where
  "validateCall env d msg =
     (case validateParams env (d_type d) (m_method msg) (m_params msg) of
        Inl e \<Rightarrow> Inl e
      | Inr validParams \<Rightarrow>
          (case validateMetadata env (m_metadata msg) of
             Inl e \<Rightarrow> Inl e
           | Inr validMetadata \<Rightarrow>
               if hasMethod env d (m_method msg) then Inr (validParams, validMetadata)
               else Inl (JsError ''Error''
                      (''Mismatching dispatcher: '' @ [CHR 0x22] @ d_type d @ [CHR 0x22]
                       @ '' does not implement '' @ [CHR 0x22] @ m_method msg @ [CHR 0x22]))))"

text \<open>
  The record of lines 201-212. The object literal writes \<^verbatim>\<open>id\<close>, then spreads
  \<^verbatim>\<open>validMetadata\<close>, then writes \<^verbatim>\<open>pageId\<close>, \<^verbatim>\<open>frameId\<close>, \<^verbatim>\<open>startTime\<close>, \<^verbatim>\<open>endTime\<close>,
  \<^verbatim>\<open>type\<close>, \<^verbatim>\<open>method\<close>, \<^verbatim>\<open>params\<close> and \<^verbatim>\<open>log\<close>; a later write of a key replaces an earlier
  one. So a property \<^verbatim>\<open>id\<close> of the metadata replaces the message's id, the eight keys
  written after the spread hide a property of the same name, and every other property of
  the metadata (\<^verbatim>\<open>stack\<close>, \<^verbatim>\<open>apiName\<close>, \<^verbatim>\<open>error\<close> and the rest) is in the record.
\<close>

definition spreadProp :: "(string \<times> jsval) list \<Rightarrow> string \<Rightarrow> jsval" where
  "spreadProp kvs k = (case map_of kvs k of None \<Rightarrow> Undefined | Some v \<Rightarrow> v)"

definition callMetadataKeys :: "string list" where
  "callMetadataKeys =
     [''id'', ''pageId'', ''frameId'', ''startTime'', ''endTime'', ''type'', ''method'',
      ''params'', ''log'', ''stack'', ''apiName'', ''error'']"

definition newCallMetadata ::
  "dispatcher \<Rightarrow> message \<Rightarrow> (string \<times> jsval) list \<Rightarrow> nat \<Rightarrow> callMetadata" where
  "newCallMetadata d msg validMetadata startTime =
     \<lparr>cm_id = (case map_of validMetadata ''id'' of
                 None \<Rightarrow> Num (int (m_id msg)) | Some v \<Rightarrow> v),
      cm_stack = spreadProp validMetadata ''stack'',
      cm_pageId = (case d_object d of PlainObject \<Rightarrow> None | SdkObject p f \<Rightarrow> p),
      cm_frameId = (case d_object d of PlainObject \<Rightarrow> None | SdkObject p f \<Rightarrow> f),
      cm_startTime = startTime,
      cm_endTime = 0,
      cm_type = d_type d,
      cm_method = m_method msg,
      cm_params = (if truthy (m_params msg) then m_params msg else Obj []),
      cm_log = [],
      cm_apiName = spreadProp validMetadata ''apiName'',
      cm_error = spreadProp validMetadata ''error'',
      cm_rest = filter (\<lambda>kv. fst kv \<notin> set callMetadataKeys) validMetadata\<rparr>"

subsection \<open>Error text\<close>

text \<open>\<^verbatim>\<open>kLoggingNote\<close> and \<^verbatim>\<open>formatLogRecording\<close> (lines 287-297); \<^verbatim>\<open>join\<close> writes
  \<^verbatim>\<open>undefined\<close> and \<^verbatim>\<open>null\<close> as the empty string. \<^verbatim>\<open>rewriteErrorMessage\<close> replaces the
  message of the error.\<close>

definition kLoggingNote :: string where
  "kLoggingNote =
     CHR 0x0A # ''Note: use DEBUG=pw:api environment variable to capture Playwright logs.''"

fun joinLines :: "string list \<Rightarrow> string" where
  "joinLines [] = []"
| "joinLines [x] = x"
| "joinLines (x # y # ys) = x @ [CHR 0x0A] @ joinLines (y # ys)"

definition logEntryString :: "env \<Rightarrow> jsval \<Rightarrow> string" where
  "logEntryString env v =
     (case v of Undefined \<Rightarrow> [] | Null \<Rightarrow> [] | Str s \<Rightarrow> s | _ \<Rightarrow> toStringJS env v)"

definition formatLogRecording :: "env \<Rightarrow> jsval list \<Rightarrow> string" where
  "formatLogRecording env log =
     (if log = [] then []
      else [CHR 0x0A] @ replicate 27 (CHR ''='') @ '' logs '' @ replicate 27 (CHR ''='')
           @ [CHR 0x0A] @ joinLines (map (logEntryString env) log)
           @ [CHR 0x0A] @ replicate 60 (CHR ''=''))"

definition rewriteErrorMessage :: "jsError \<Rightarrow> string \<Rightarrow> jsError" where
  "rewriteErrorMessage e newMessage = JsError (errName e) newMessage"

subsection \<open>The pending-wait table\<close>

text \<open>
  \<^verbatim>\<open>params?.info?.waitId\<close> (lines 217 and 248): the descriptor \<^verbatim>\<open>params.info\<close> when its
  \<^verbatim>\<open>waitId\<close> is truthy.
\<close>

definition waitInfo :: "jsval \<Rightarrow> jsval option" where
  "waitInfo params =
     (let info = getProp params ''info''
      in if truthy (getProp info ''waitId'') then Some info else None)"

datatype waitPhase = Before | Log | After | OtherPhase

definition phaseOf :: "jsval \<Rightarrow> waitPhase" where
  "phaseOf info =
     (if getProp info ''phase'' = Str ''before'' then Before
      else if getProp info ''phase'' = Str ''log'' then Log
      else if getProp info ''phase'' = Str ''after'' then After
      else OtherPhase)"

text \<open>
  \<^verbatim>\<open>_waitOperations\<close> is a \<^verbatim>\<open>Map\<close> keyed by whatever \<^verbatim>\<open>info.waitId\<close> is. A \<^verbatim>\<open>Map\<close> compares
  strings, numbers and booleans by value; an array, an object or a function is a key by
  identity, and the one inside a message just received is identical to no key stored
  before, so it is never found.
\<close>

fun isPrimitive :: "jsval \<Rightarrow> bool" where
  "isPrimitive (DispatcherV g) = False"
| "isPrimitive (Arr ps) = False"
| "isPrimitive (Obj kvs) = False"
| "isPrimitive (Instance cls kvs others) = False"
| "isPrimitive (Func f) = False"
| "isPrimitive v = True"

definition waitGet :: "(jsval \<times> callMetadata) list \<Rightarrow> jsval \<Rightarrow> callMetadata option" where
  "waitGet table k = (if isPrimitive k then map_of table k else None)"

definition waitSet ::
  "(jsval \<times> callMetadata) list \<Rightarrow> jsval \<Rightarrow> callMetadata \<Rightarrow> (jsval \<times> callMetadata) list" where
  "waitSet table k v = (if isPrimitive k then AList.update k v table else table @ [(k, v)])"

definition waitDelete :: "(jsval \<times> callMetadata) list \<Rightarrow> jsval \<Rightarrow> (jsval \<times> callMetadata) list" where
  "waitDelete table k = (if isPrimitive k then AList.delete k table else table)"

subsection \<open>dispatch\<close>

text \<open>The \<^verbatim>\<open>catch\<close> of lines 238-243.\<close>

definition catchError ::
  "env \<Rightarrow> message \<Rightarrow> jsError \<Rightarrow> callMetadata \<Rightarrow> connection \<Rightarrow> callMetadata \<times> connection" where
  "catchError env msg e cm c =
     (let cm1 = cm\<lparr>cm_error := Str (errMessage e)\<rparr>;
          e1 = (if cm_log cm1 \<noteq> []
                then rewriteErrorMessage e
                       (errMessage e @ formatLogRecording env (cm_log cm1) @ kLoggingNote)
                else e)
      in (cm1, reply (ReplyError (m_id msg) (serializeError env e1)) c))"

text \<open>Lines 234-243: \<^verbatim>\<open>onBeforeCall\<close> for an instrumentable object, the method, and the
  reply with its result or with the error it threw.\<close>

definition runMethod ::
  "env \<Rightarrow> dispatcher \<Rightarrow> message \<Rightarrow> jsval \<Rightarrow> callMetadata \<Rightarrow> connection
     \<Rightarrow> callMetadata \<times> connection" where
  "runMethod env d msg validParams cm c =
     (let c1 = (if isSdkObject (d_object d) then notify (OnBeforeCall (d_object d) cm) c else c);
          called = invokeMethod env d (m_method msg) validParams cm;
          cm1 = cm\<lparr>cm_log := cm_log cm @ fst called\<rparr>
      in case snd called of
           Inr result \<Rightarrow>
             (cm1, reply (ReplyResult (m_id msg) (replaceDispatchersWithGuids result)) c1)
         | Inl e \<Rightarrow> catchError env msg e cm1 c1)"

text \<open>A call with no wait descriptor, or one whose phase is none of the three: the
  method, then in \<^verbatim>\<open>finally\<close> the end time and \<^verbatim>\<open>onAfterCall\<close>.\<close>

definition ordinaryCall ::
  "env \<Rightarrow> dispatcher \<Rightarrow> message \<Rightarrow> jsval \<Rightarrow> callMetadata \<Rightarrow> connection
     \<Rightarrow> unit completion \<times> connection" where
  "ordinaryCall env d msg validParams cm c =
     (let ran = runMethod env d msg validParams cm c;
          timed = monotonicTime env (snd ran);
          cm2 = (fst ran)\<lparr>cm_endTime := fst timed\<rparr>
      in (Returned (),
          if isSdkObject (d_object d) then notify (OnAfterCall (d_object d) cm2) (snd timed)
          else snd timed))"

text \<open>
  Phase \<^verbatim>\<open>before\<close> (lines 220-224, then 234-243, then 245 and 251-255): the record gets
  the operation name and the stack and is put into the table, the call goes on as an
  ordinary one up to its reply, and \<^verbatim>\<open>finally\<close> resets the end time and returns before
  \<^verbatim>\<open>onAfterCall\<close>. The table holds the record itself, not a copy, so what the call
  assigns to it after line 223 shows in the table: the model stores the record once, as
  it is at the end of the call.
\<close>

definition waitBefore ::
  "env \<Rightarrow> dispatcher \<Rightarrow> message \<Rightarrow> jsval \<Rightarrow> jsval \<Rightarrow> callMetadata \<Rightarrow> connection
     \<Rightarrow> unit completion \<times> connection" where
  "waitBefore env d msg validParams info cm c =
     (let cm0 = cm\<lparr>cm_apiName := getProp info ''apiName'', cm_stack := getProp info ''stack''\<rparr>;
          ran = runMethod env d msg validParams cm0 c;
          timed = monotonicTime env (snd ran);
          cm2 = (fst ran)\<lparr>cm_endTime := 0\<rparr>
      in (Returned (),
          (snd timed)\<lparr>c_waitOperations :=
             waitSet (c_waitOperations (snd timed)) (getProp info ''waitId'') cm2\<rparr>))"

text \<open>
  Phase \<^verbatim>\<open>log\<close> (lines 225-231, then 245 and 254-255). With no pending record,
  \<^verbatim>\<open>originalMetadata.log\<close> throws inside the \<^verbatim>\<open>try\<close>, and the \<^verbatim>\<open>catch\<close> replies with that
  error.
\<close>

definition waitLog ::
  "env \<Rightarrow> dispatcher \<Rightarrow> message \<Rightarrow> jsval \<Rightarrow> callMetadata \<Rightarrow> connection
     \<Rightarrow> unit completion \<times> connection" where
  "waitLog env d msg info cm c =
     (case waitGet (c_waitOperations c) (getProp info ''waitId'') of
        None \<Rightarrow>
          (Returned (),
           snd (monotonicTime env (snd (catchError env msg (cannotReadOfUndefined ''log'') cm c))))
      | Some originalMetadata \<Rightarrow>
          let logged = originalMetadata\<lparr>cm_log :=
                         cm_log originalMetadata @ [getProp info ''message'']\<rparr>;
              c1 = c\<lparr>c_waitOperations :=
                      waitSet (c_waitOperations c) (getProp info ''waitId'') logged\<rparr>;
              c2 = notify (OnCallLog ''api'' (getProp info ''message'') (d_object d) logged) c1
          in (Returned (), snd (monotonicTime env c2)))"

text \<open>
  Phase \<^verbatim>\<open>after\<close> (lines 230-231, then 245 and 256-265): the \<^verbatim>\<open>try\<close> returns at once, and
  \<^verbatim>\<open>finally\<close> closes the pending record and hands it to \<^verbatim>\<open>onAfterCall\<close>. With no pending
  record the assignment to \<^verbatim>\<open>originalMetadata.endTime\<close> throws, outside every \<^verbatim>\<open>catch\<close>.
\<close>

definition waitAfter ::
  "env \<Rightarrow> dispatcher \<Rightarrow> message \<Rightarrow> jsval \<Rightarrow> callMetadata \<Rightarrow> connection
     \<Rightarrow> unit completion \<times> connection" where
  "waitAfter env d msg info cm c =
     (let timed = monotonicTime env c;
          c1 = snd timed
      in case waitGet (c_waitOperations c1) (getProp info ''waitId'') of
           None \<Rightarrow> (Threw (cannotSetOfUndefined ''endTime''), c1)
         | Some originalMetadata \<Rightarrow>
             let closed = originalMetadata\<lparr>cm_endTime := fst timed,
                                            cm_error := getProp info ''error''\<rparr>;
                 c2 = c1\<lparr>c_waitOperations :=
                         waitDelete (c_waitOperations c1) (getProp info ''waitId'')\<rparr>
             in (Returned (), notify (OnAfterCall (d_object d) closed) c2))"

text \<open>Lines 188-267, for the dispatcher \<open>d\<close> the message is for.\<close>

definition dispatchCall ::
  "env \<Rightarrow> message \<Rightarrow> dispatcher \<Rightarrow> connection \<Rightarrow> unit completion \<times> connection" where
  "dispatchCall env msg d c =
     (case validateCall env d msg of
        Inl e \<Rightarrow> (Returned (), reply (ReplyError (m_id msg) (serializeError env e)) c)
      | Inr valid \<Rightarrow>
          let timed = monotonicTime env c;
              cm = newCallMetadata d msg (snd valid) (fst timed)
          in case (if isSdkObject (d_object d) then waitInfo (m_params msg) else None) of
               None \<Rightarrow> ordinaryCall env d msg (fst valid) cm (snd timed)
             | Some info \<Rightarrow>
                 (case phaseOf info of
                    Before \<Rightarrow> waitBefore env d msg (fst valid) info cm (snd timed)
                  | Log \<Rightarrow> waitLog env d msg info cm (snd timed)
                  | After \<Rightarrow> waitAfter env d msg info cm (snd timed)
                  | OtherPhase \<Rightarrow> ordinaryCall env d msg (fst valid) cm (snd timed)))"

text \<open>
  \<^verbatim>\<open>dispatch\<close> (lines 176-268), one message handled to its end with no other message in
  between. \<open>stackDepth\<close> bounds the recursion of the snapshot; the result is \<open>None\<close> when
  the snapshot does not return.
\<close>

definition dispatch ::
  "nat \<Rightarrow> env \<Rightarrow> message \<Rightarrow> connection \<Rightarrow> (unit completion \<times> connection) option" where
  "dispatch stackDepth env msg c =
     (case map_of (c_dispatchers c) (m_guid msg) of
        None \<Rightarrow>
          Some (Returned (),
                reply (ReplyError (m_id msg)
                         (serializeError env
                            (JsError ''Error'' (kBrowserOrContextClosedError env)))) c)
      | Some a \<Rightarrow>
          if m_method msg = ''debugScopeState'' then
            (case debugScopeState stackDepth c (c_rootDispatcher c) of
               None \<Rightarrow> None
             | Some state \<Rightarrow> Some (Returned (), reply (ReplyResult (m_id msg) state) c))
          else Some (dispatchCall env msg (heap c ! a) c))"

text \<open>A sequence of messages, each dispatched on the connection the one before left; an
  exception or a snapshot that does not return ends the sequence.\<close>

fun dispatchAll ::
  "nat \<Rightarrow> env \<Rightarrow> message list \<Rightarrow> connection \<Rightarrow> (unit completion \<times> connection) option" where
  "dispatchAll stackDepth env [] c = Some (Returned (), c)"
| "dispatchAll stackDepth env (msg # msgs) c =
     (case dispatch stackDepth env msg c of
        None \<Rightarrow> None
      | Some (Threw e, c1) \<Rightarrow> Some (Threw e, c1)
      | Some (Returned u, c1) \<Rightarrow> dispatchAll stackDepth env msgs c1)"


section \<open>Well-formed connections\<close>

text \<open>
  What the constructor and \<^verbatim>\<open>_dispose\<close> keep true of a connection: the root exists; the
  keys of a children map are distinct (it is a \<^verbatim>\<open>Map\<close>); an entry of the children map of
  a node is a later, existing, not disposed node that has the entry's key as identifier
  and the node as parent; and a node that is not disposed is what the registry holds
  under its identifier.
\<close>

definition wellFormed :: "connection \<Rightarrow> bool" where
  "wellFormed c =
     (c_rootDispatcher c < length (heap c) \<and>
      (\<forall>a < length (heap c).
         distinct (map fst (d_dispatchers (heap c ! a))) \<and>
         (\<forall>e \<in> set (d_dispatchers (heap c ! a)).
            a < snd e \<and> snd e < length (heap c) \<and> d_guid (heap c ! snd e) = fst e \<and>
            d_parent (heap c ! snd e) = Some a \<and> \<not> d_disposed (heap c ! snd e)) \<and>
         (\<not> d_disposed (heap c ! a) \<longrightarrow>
            map_of (c_dispatchers c) (d_guid (heap c ! a)) = Some a)))"

text \<open>\<open>d\<close> is a descendant of \<open>a\<close>: reached from \<open>a\<close> through one or more children maps.\<close>

inductive descendant :: "connection \<Rightarrow> addr \<Rightarrow> addr \<Rightarrow> bool" for c a where
  child: "b \<in> set (childDispatchers a c) \<Longrightarrow> descendant c a b"
| step: "descendant c a b \<Longrightarrow> d \<in> set (childDispatchers b c) \<Longrightarrow> descendant c a d"

text \<open>The teardown notification \<^verbatim>\<open>{guid, method: '__dispose__', params: {}}\<close>.\<close>

definition teardown :: "string \<Rightarrow> wire" where
  "teardown g = Event g ''__dispose__'' (Obj [])"

text \<open>
  The vocabulary of the proof about \<^verbatim>\<open>_dispose\<close>: the first steps of a call as one
  (\<open>beginDispose\<close>), the nodes a run has disposed (\<open>newlyDisposed\<close>), what every run of
  returned calls does to a connection (\<open>progress\<close>: it only disposes, only removes
  entries, removes an entry only of a node it has disposed, leaves a node it has
  disposed without children and out of the registry, and sends exactly the teardown
  notifications of the scopes it has disposed), and what one call (\<open>disposePost\<close>) and
  the loop over the children of a node (\<open>loopPost\<close>) establish.
\<close>

definition beginDispose :: "addr \<Rightarrow> connection \<Rightarrow> connection" where
  "beginDispose a c = cleanUp a (markDisposed a c)"

definition newlyDisposed :: "connection \<Rightarrow> connection \<Rightarrow> addr \<Rightarrow> bool" where
  "newlyDisposed c c' x =
     (x < length (heap c) \<and> \<not> d_disposed (heap c ! x) \<and> d_disposed (heap c' ! x))"

definition progress :: "connection \<Rightarrow> connection \<Rightarrow> bool" where
  "progress c c' =
     (length (heap c') = length (heap c) \<and>
      c_rootDispatcher c' = c_rootDispatcher c \<and>
      c_waitOperations c' = c_waitOperations c \<and>
      notified c' = notified c \<and>
      clockReads c' = clockReads c \<and>
      set (c_dispatchers c') \<subseteq> set (c_dispatchers c) \<and>
      (\<forall>x < length (heap c).
         d_guid (heap c' ! x) = d_guid (heap c ! x) \<and>
         d_isScope (heap c' ! x) = d_isScope (heap c ! x) \<and>
         d_parent (heap c' ! x) = d_parent (heap c ! x) \<and>
         (d_disposed (heap c ! x) \<longrightarrow> d_disposed (heap c' ! x)) \<and>
         set (d_dispatchers (heap c' ! x)) \<subseteq> set (d_dispatchers (heap c ! x)) \<and>
         (newlyDisposed c c' x \<longrightarrow>
            d_dispatchers (heap c' ! x) = [] \<and>
            map_of (c_dispatchers c') (d_guid (heap c ! x)) = None) \<and>
         (\<forall>e \<in> set (d_dispatchers (heap c ! x)) - set (d_dispatchers (heap c' ! x)).
            snd e < length (heap c) \<and> d_disposed (heap c' ! snd e))) \<and>
      (\<exists>ms. sent c' = sent c @ ms \<and>
         (\<forall>m \<in> set ms. \<exists>x. newlyDisposed c c' x \<and> d_isScope (heap c ! x)
                              \<and> m = teardown (d_guid (heap c ! x))) \<and>
         (\<forall>x. newlyDisposed c c' x \<and> d_isScope (heap c ! x)
               \<longrightarrow> teardown (d_guid (heap c ! x)) \<in> set ms)))"

definition ownTeardown :: "connection \<Rightarrow> addr \<Rightarrow> wire list" where
  "ownTeardown c a = (if d_isScope (heap c ! a) then [teardown (d_guid (heap c ! a))] else [])"

definition disposePost :: "addr \<Rightarrow> connection \<Rightarrow> connection \<Rightarrow> bool" where
  "disposePost a c c' =
     (wellFormed c' \<and> progress c c' \<and> d_disposed (heap c' ! a) \<and>
      (\<forall>b < a. heap c' ! b =
         (if d_parent (heap c ! a) = Some b
          then (heap c ! b)\<lparr>d_dispatchers :=
                 AList.delete (d_guid (heap c ! a)) (d_dispatchers (heap c ! b))\<rparr>
          else heap c ! b)) \<and>
      (\<exists>ms. sent c' = sent c @ ms @ ownTeardown c a \<and>
         (\<forall>m \<in> set ms. \<exists>x. x \<noteq> a \<and> newlyDisposed c c' x \<and> d_isScope (heap c ! x)
                              \<and> m = teardown (d_guid (heap c ! x)))))"

definition loopPost :: "addr \<Rightarrow> connection \<Rightarrow> connection \<Rightarrow> bool" where
  "loopPost a c c' =
     (wellFormed c' \<and> progress c c' \<and> d_dispatchers (heap c' ! a) = [] \<and>
      d_disposed (heap c' ! a) = d_disposed (heap c ! a) \<and>
      (\<forall>b < a. heap c' ! b = heap c ! b))"

section \<open>Vocabulary of the claims about dispatch\<close>



text \<open>The messages of the wait protocol: a call of \<^verbatim>\<open>waitForEventInfo\<close> on the node \<open>g\<close>
  whose parameters are \<^verbatim>\<open>{info}\<close>, and the three descriptors for the wait identifier
  \<^verbatim>\<open>w1\<close>.\<close>

definition waitMessage :: "nat \<Rightarrow> string \<Rightarrow> jsval \<Rightarrow> message" where
  "waitMessage i g info =
     \<lparr>m_id = i, m_guid = g, m_method = ''waitForEventInfo'',
      m_params = Obj [(''info'', info)], m_metadata = Undefined\<rparr>"

definition beforeInfo :: jsval where
  "beforeInfo = Obj [(''waitId'', Str ''w1''), (''phase'', Str ''before''), (''apiName'', Str ''x'')]"

definition logInfo :: "string \<Rightarrow> jsval" where
  "logInfo m = Obj [(''waitId'', Str ''w1''), (''phase'', Str ''log''), (''message'', Str m)]"

definition afterInfo :: jsval where
  "afterInfo = Obj [(''waitId'', Str ''w1''), (''phase'', Str ''after'')]"

section \<open>Examples\<close>

text \<open>A connection to try things on: under the root a browser scope, in it a context
  scope, in it a page scope, in it a frame that is no scope, each made by the
  constructor.\<close>

definition exampleConnection :: connection where
  "exampleConnection =
     (let c1 = snd (newDispatcher (ParentDispatcher 0) (SdkObject None None) ''Browser''
                      (Obj []) True ''browser@1'' newConnection);
          c2 = snd (newDispatcher (ParentDispatcher 1) (SdkObject None None) ''BrowserContext''
                      (Obj []) True ''context@2'' c1);
          c3 = snd (newDispatcher (ParentDispatcher 2) (SdkObject (Some ''page1'') None) ''Page''
                      (Obj []) True ''page@3'' c2)
      in snd (newDispatcher (ParentDispatcher 3) (SdkObject (Some ''page1'') (Some ''frame1''))
                ''Frame'' (Obj []) False ''frame@4'' c3))"

text \<open>The example after the context (node 2) was disposed, and after only the frame
  (node 4) was.\<close>

definition disposedExample :: connection where
  "disposedExample = snd (dispose 2 exampleConnection)"

definition reusedGuidBefore :: connection where
  "reusedGuidBefore = snd (dispose 4 exampleConnection)"

text \<open>An outside that accepts every message: validators that return what they are
  given (of the metadata, its properties), every method implemented and returning \<^verbatim>\<open>undefined\<close>, a clock that starts at
  100.\<close>

definition exampleEnv :: env where
  "exampleEnv =
     \<lparr>validateParams = (\<lambda>type meth params. Inr params),
      validateMetadata = (\<lambda>metadata. Inr (ownEnumerable metadata)),
      implements = (\<lambda>d meth. True),
      callMethod = (\<lambda>d meth params cm. ([], Inr Undefined)),
      serializeError = (\<lambda>e. Obj [(''error'', Obj [(''name'', Str (errName e)),
                                                   (''message'', Str (errMessage e))])]),
      kBrowserOrContextClosedError = ''Target page, context or browser has been closed'',
      clock = (\<lambda>n. 100 + n),
      toStringJS = (\<lambda>v. ''[value]'')\<rparr>"


definition introspectMessage :: "string \<Rightarrow> message" where
  "introspectMessage g =
     \<lparr>m_id = 7, m_guid = g, m_method = ''debugScopeState'',
      m_params = Undefined, m_metadata = Undefined\<rparr>"



section \<open>Disposal keeps a connection well-formed\<close>

declare dispose.simps [simp del]

lemma modify_keeps:
  "(\<And>d. F (f d) = F d) \<Longrightarrow> F (heap (modify p f c) ! a) = F (heap c ! a)"
proof (cases "p < length (heap c)")
  case True
  assume "\<And>d. F (f d) = F d"
  with True show ?thesis by (cases "p = a") (simp_all add: modify_def)
next
  case False
  then show ?thesis by (simp add: modify_def list_update_beyond)
qed

lemma fields_modify [simp]:
  "c_dispatchers (modify a f c) = c_dispatchers c"
  "c_rootDispatcher (modify a f c) = c_rootDispatcher c"
  "c_waitOperations (modify a f c) = c_waitOperations c"
  "sent (modify a f c) = sent c"
  "notified (modify a f c) = notified c"
  "clockReads (modify a f c) = clockReads c"
  by (simp_all add: modify_def)

lemma fields_sendMessageToClient [simp]:
  "heap (sendMessageToClient g m p c) = heap c"
  "c_dispatchers (sendMessageToClient g m p c) = c_dispatchers c"
  "c_rootDispatcher (sendMessageToClient g m p c) = c_rootDispatcher c"
  "c_waitOperations (sendMessageToClient g m p c) = c_waitOperations c"
  "sent (sendMessageToClient g m p c) = sent c @ [Event g m (replaceDispatchersWithGuids p)]"
  "notified (sendMessageToClient g m p c) = notified c"
  "clockReads (sendMessageToClient g m p c) = clockReads c"
  by (simp_all add: sendMessageToClient_def)

lemma heap_markDisposed:
  "x < length (heap c) \<Longrightarrow>
   heap (markDisposed a c) ! x = (if x = a then (heap c ! a)\<lparr>d_disposed := True\<rparr> else heap c ! x)"
  by (simp add: markDisposed_def nth_heap_modify)

lemma length_markDisposed [simp]: "length (heap (markDisposed a c)) = length (heap c)"
  by (simp add: markDisposed_def)

lemma fields_markDisposed [simp]:
  "c_dispatchers (markDisposed a c) = c_dispatchers c"
  "c_rootDispatcher (markDisposed a c) = c_rootDispatcher c"
  "c_waitOperations (markDisposed a c) = c_waitOperations c"
  "sent (markDisposed a c) = sent c"
  "notified (markDisposed a c) = notified c"
  "clockReads (markDisposed a c) = clockReads c"
  by (simp_all add: markDisposed_def)

lemma length_cleanUp [simp]: "length (heap (cleanUp a c)) = length (heap c)"
  by (simp add: cleanUp_def Let_def split: option.split)

lemma heap_cleanUp:
  "x < length (heap c) \<Longrightarrow>
   heap (cleanUp a c) ! x =
     (if d_parent (heap c ! a) = Some x
      then (heap c ! x)\<lparr>d_dispatchers := AList.delete (d_guid (heap c ! a)) (d_dispatchers (heap c ! x))\<rparr>
      else heap c ! x)"
  by (auto simp add: cleanUp_def Let_def nth_heap_modify split: option.split)

lemma fields_cleanUp [simp]:
  "c_rootDispatcher (cleanUp a c) = c_rootDispatcher c"
  "c_waitOperations (cleanUp a c) = c_waitOperations c"
  "sent (cleanUp a c) = sent c"
  "notified (cleanUp a c) = notified c"
  "clockReads (cleanUp a c) = clockReads c"
  by (simp_all add: cleanUp_def Let_def split: option.split)

lemma registry_cleanUp:
  "a < length (heap c) \<Longrightarrow>
   c_dispatchers (cleanUp a c) = AList.delete (d_guid (heap c ! a)) (c_dispatchers c)"
proof -
  have "d_guid (heap (modify p (\<lambda>d. d\<lparr>d_dispatchers := m d\<rparr>) c) ! a) = d_guid (heap c ! a)" for p m
    by (rule modify_keeps) simp
  then show ?thesis
    by (simp add: cleanUp_def Let_def split: option.split)
qed

lemma length_finishDispose [simp]: "length (heap (finishDispose a c)) = length (heap c)"
  by (simp add: finishDispose_def Let_def)

lemma heap_finishDispose:
  "x < length (heap c) \<Longrightarrow>
   heap (finishDispose a c) ! x = (if x = a then (heap c ! a)\<lparr>d_dispatchers := []\<rparr> else heap c ! x)"
  by (simp add: finishDispose_def Let_def nth_heap_modify)

lemma fields_finishDispose [simp]:
  "c_dispatchers (finishDispose a c) = c_dispatchers c"
  "c_rootDispatcher (finishDispose a c) = c_rootDispatcher c"
  "c_waitOperations (finishDispose a c) = c_waitOperations c"
  "notified (finishDispose a c) = notified c"
  "clockReads (finishDispose a c) = clockReads c"
  by (simp_all add: finishDispose_def Let_def)

lemma sent_finishDispose:
  "a < length (heap c) \<Longrightarrow>
   sent (finishDispose a c) =
     sent c @ (if d_isScope (heap c ! a) then [Event (d_guid (heap c ! a)) ''__dispose__'' (Obj [])] else [])"
  by (simp add: finishDispose_def Let_def nth_heap_modify)

lemma in_set_delete: "(g, b) \<in> set (AList.delete k al) \<longleftrightarrow> (g, b) \<in> set al \<and> g \<noteq> k"
  by (auto simp: AList.delete_eq)

lemma wellFormedD_root: "wellFormed c \<Longrightarrow> c_rootDispatcher c < length (heap c)"
  by (simp add: wellFormed_def)

lemma wellFormedD_distinct:
  "wellFormed c \<Longrightarrow> a < length (heap c) \<Longrightarrow> distinct (map fst (d_dispatchers (heap c ! a)))"
  by (simp add: wellFormed_def)

lemma wellFormedD_child:
  "wellFormed c \<Longrightarrow> a < length (heap c) \<Longrightarrow> (g, b) \<in> set (d_dispatchers (heap c ! a)) \<Longrightarrow>
   a < b \<and> b < length (heap c) \<and> d_guid (heap c ! b) = g \<and> d_parent (heap c ! b) = Some a
   \<and> \<not> d_disposed (heap c ! b)"
proof -
  assume "wellFormed c" "a < length (heap c)" and mem: "(g, b) \<in> set (d_dispatchers (heap c ! a))"
  then have "\<forall>e \<in> set (d_dispatchers (heap c ! a)).
            a < snd e \<and> snd e < length (heap c) \<and> d_guid (heap c ! snd e) = fst e \<and>
            d_parent (heap c ! snd e) = Some a \<and> \<not> d_disposed (heap c ! snd e)"
    by (simp add: wellFormed_def)
  from bspec [OF this mem] show ?thesis by simp
qed

lemma wellFormedD_registered:
  "wellFormed c \<Longrightarrow> a < length (heap c) \<Longrightarrow> \<not> d_disposed (heap c ! a) \<Longrightarrow>
   map_of (c_dispatchers c) (d_guid (heap c ! a)) = Some a"
  by (simp add: wellFormed_def)

lemma wellFormedI:
  assumes "c_rootDispatcher c < length (heap c)"
    and "\<And>a. a < length (heap c) \<Longrightarrow> distinct (map fst (d_dispatchers (heap c ! a)))"
    and "\<And>a g b. a < length (heap c) \<Longrightarrow> (g, b) \<in> set (d_dispatchers (heap c ! a)) \<Longrightarrow>
           a < b \<and> b < length (heap c) \<and> d_guid (heap c ! b) = g \<and> d_parent (heap c ! b) = Some a
           \<and> \<not> d_disposed (heap c ! b)"
    and "\<And>a. a < length (heap c) \<Longrightarrow> \<not> d_disposed (heap c ! a) \<Longrightarrow>
           map_of (c_dispatchers c) (d_guid (heap c ! a)) = Some a"
  shows "wellFormed c"
proof -
  have "a < snd e \<and> snd e < length (heap c) \<and> d_guid (heap c ! snd e) = fst e \<and>
        d_parent (heap c ! snd e) = Some a \<and> \<not> d_disposed (heap c ! snd e)"
    if "a < length (heap c)" "e \<in> set (d_dispatchers (heap c ! a))" for a e
    using assms(3) [of a "fst e" "snd e"] that by simp
  with assms(1,2,4) show ?thesis
    unfolding wellFormed_def by blast
qed

lemma live_guid_inj:
  "wellFormed c \<Longrightarrow> a < length (heap c) \<Longrightarrow> b < length (heap c) \<Longrightarrow>
   \<not> d_disposed (heap c ! a) \<Longrightarrow> \<not> d_disposed (heap c ! b) \<Longrightarrow>
   d_guid (heap c ! a) = d_guid (heap c ! b) \<Longrightarrow> a = b"
proof -
  assume wf: "wellFormed c" and a: "a < length (heap c)" and b: "b < length (heap c)"
    and la: "\<not> d_disposed (heap c ! a)" and lb: "\<not> d_disposed (heap c ! b)"
    and eq: "d_guid (heap c ! a) = d_guid (heap c ! b)"
  have "Some a = map_of (c_dispatchers c) (d_guid (heap c ! a))"
    using wellFormedD_registered [OF wf a la] by simp
  also have "\<dots> = map_of (c_dispatchers c) (d_guid (heap c ! b))"
    by (simp only: eq)
  also have "\<dots> = Some b"
    using wellFormedD_registered [OF wf b lb] by simp
  finally show "a = b" by simp
qed

lemma length_beginDispose [simp]: "length (heap (beginDispose a c)) = length (heap c)"
  by (simp add: beginDispose_def)

lemma fields_beginDispose [simp]:
  "c_rootDispatcher (beginDispose a c) = c_rootDispatcher c"
  "c_waitOperations (beginDispose a c) = c_waitOperations c"
  "sent (beginDispose a c) = sent c"
  "notified (beginDispose a c) = notified c"
  "clockReads (beginDispose a c) = clockReads c"
  by (simp_all add: beginDispose_def)

lemma registry_beginDispose:
  "a < length (heap c) \<Longrightarrow>
   c_dispatchers (beginDispose a c) = AList.delete (d_guid (heap c ! a)) (c_dispatchers c)"
  by (simp add: beginDispose_def registry_cleanUp heap_markDisposed)

lemma heap_beginDispose:
  assumes "a < length (heap c)" "x < length (heap c)"
  shows "heap (beginDispose a c) ! x =
     (heap c ! x)\<lparr>d_disposed := (x = a \<or> d_disposed (heap c ! x)),
                  d_dispatchers := (if d_parent (heap c ! a) = Some x
                                    then AList.delete (d_guid (heap c ! a)) (d_dispatchers (heap c ! x))
                                    else d_dispatchers (heap c ! x))\<rparr>"
  using assms by (simp add: beginDispose_def heap_cleanUp heap_markDisposed)

lemma wellFormed_beginDispose:
  assumes wf: "wellFormed c" and a: "a < length (heap c)" and live: "\<not> d_disposed (heap c ! a)"
  shows "wellFormed (beginDispose a c)"
proof (rule wellFormedI)
  show "c_rootDispatcher (beginDispose a c) < length (heap (beginDispose a c))"
    using wellFormedD_root [OF wf] by simp
next
  fix x assume "x < length (heap (beginDispose a c))"
  then have x: "x < length (heap c)" by simp
  show "distinct (map fst (d_dispatchers (heap (beginDispose a c) ! x)))"
    using wellFormedD_distinct [OF wf x] by (simp add: heap_beginDispose [OF a x] distinct_delete)
next
  fix x g b
  assume "x < length (heap (beginDispose a c))"
    and mem: "(g, b) \<in> set (d_dispatchers (heap (beginDispose a c) ! x))"
  then have x: "x < length (heap c)" by simp
  from mem have old: "(g, b) \<in> set (d_dispatchers (heap c ! x))"
    by (simp add: heap_beginDispose [OF a x] in_set_delete split: if_splits)
  note ch = wellFormedD_child [OF wf x old]
  then have b: "b < length (heap c)" by simp
  have "b \<noteq> a"
  proof
    assume "b = a"
    with ch have "d_parent (heap c ! a) = Some x" "g = d_guid (heap c ! a)" by simp_all
    with mem show False by (simp add: heap_beginDispose [OF a x] in_set_delete)
  qed
  with ch b show "x < b \<and> b < length (heap (beginDispose a c)) \<and> d_guid (heap (beginDispose a c) ! b) = g
      \<and> d_parent (heap (beginDispose a c) ! b) = Some x \<and> \<not> d_disposed (heap (beginDispose a c) ! b)"
    by (simp add: heap_beginDispose [OF a b])
next
  fix x
  assume "x < length (heap (beginDispose a c))" and lv: "\<not> d_disposed (heap (beginDispose a c) ! x)"
  then have x: "x < length (heap c)" by simp
  from lv have xa: "x \<noteq> a" and lx: "\<not> d_disposed (heap c ! x)"
    by (simp_all add: heap_beginDispose [OF a x])
  have "d_guid (heap c ! x) \<noteq> d_guid (heap c ! a)"
    using live_guid_inj [OF wf x a lx live] xa by blast
  then show "map_of (c_dispatchers (beginDispose a c)) (d_guid (heap (beginDispose a c) ! x)) = Some x"
    using wellFormedD_registered [OF wf x lx]
    by (simp add: registry_beginDispose [OF a] heap_beginDispose [OF a x])
qed

lemma node_finishDispose:
  assumes "x < length (heap c)"
  shows "d_guid (heap (finishDispose a c) ! x) = d_guid (heap c ! x)"
    "d_isScope (heap (finishDispose a c) ! x) = d_isScope (heap c ! x)"
    "d_parent (heap (finishDispose a c) ! x) = d_parent (heap c ! x)"
    "d_disposed (heap (finishDispose a c) ! x) = d_disposed (heap c ! x)"
    "d_dispatchers (heap (finishDispose a c) ! x) = (if x = a then [] else d_dispatchers (heap c ! x))"
  using assms by (simp_all add: heap_finishDispose)

lemma node_beginDispose:
  assumes "a < length (heap c)" "x < length (heap c)"
  shows "d_guid (heap (beginDispose a c) ! x) = d_guid (heap c ! x)"
    "d_isScope (heap (beginDispose a c) ! x) = d_isScope (heap c ! x)"
    "d_parent (heap (beginDispose a c) ! x) = d_parent (heap c ! x)"
    "d_disposed (heap (beginDispose a c) ! x) = (x = a \<or> d_disposed (heap c ! x))"
    "d_dispatchers (heap (beginDispose a c) ! x) =
       (if d_parent (heap c ! a) = Some x
        then AList.delete (d_guid (heap c ! a)) (d_dispatchers (heap c ! x))
        else d_dispatchers (heap c ! x))"
  using assms by (simp_all add: heap_beginDispose)

lemma wellFormed_finishDispose:
  assumes wf: "wellFormed c" and a: "a < length (heap c)"
  shows "wellFormed (finishDispose a c)"
proof (rule wellFormedI)
  show "c_rootDispatcher (finishDispose a c) < length (heap (finishDispose a c))"
    using wellFormedD_root [OF wf] by simp
next
  fix x assume "x < length (heap (finishDispose a c))"
  then have x: "x < length (heap c)" by simp
  show "distinct (map fst (d_dispatchers (heap (finishDispose a c) ! x)))"
    using wellFormedD_distinct [OF wf x] by (simp add: heap_finishDispose [OF x])
next
  fix x g b
  assume "x < length (heap (finishDispose a c))"
    and mem: "(g, b) \<in> set (d_dispatchers (heap (finishDispose a c) ! x))"
  then have x: "x < length (heap c)" by simp
  from mem have old: "(g, b) \<in> set (d_dispatchers (heap c ! x))"
    by (simp add: heap_finishDispose [OF x] split: if_splits)
  note ch = wellFormedD_child [OF wf x old]
  then have b: "b < length (heap c)" by simp
  with ch show "x < b \<and> b < length (heap (finishDispose a c)) \<and> d_guid (heap (finishDispose a c) ! b) = g
      \<and> d_parent (heap (finishDispose a c) ! b) = Some x \<and> \<not> d_disposed (heap (finishDispose a c) ! b)"
    by (cases "b = a") (simp_all add: heap_finishDispose)
next
  fix x
  assume "x < length (heap (finishDispose a c))" and lv: "\<not> d_disposed (heap (finishDispose a c) ! x)"
  then have x: "x < length (heap c)" by simp
  from lv have lx: "\<not> d_disposed (heap c ! x)"
    by (simp add: heap_finishDispose [OF x] split: if_splits)
  then show "map_of (c_dispatchers (finishDispose a c)) (d_guid (heap (finishDispose a c) ! x)) = Some x"
    using wellFormedD_registered [OF wf x lx] x
    by (cases "x = a") (simp_all add: heap_finishDispose)
qed

lemma progress_refl: "progress c c"
  by (simp add: progress_def newlyDisposed_def)

lemma map_of_None_mono:
  "set r' \<subseteq> set r \<Longrightarrow> map_of r g = None \<Longrightarrow> map_of r' g = None"
  by (force simp: map_of_eq_None_iff)

lemma progress_trans:
  assumes p1: "progress c c1" and p2: "progress c1 c2"
  shows "progress c c2"
proof -
  have len: "length (heap c1) = length (heap c)" "length (heap c2) = length (heap c)"
    using p1 p2 by (simp_all add: progress_def)
  have nd: "newlyDisposed c c2 x \<longleftrightarrow> newlyDisposed c c1 x \<or> newlyDisposed c1 c2 x \<and> \<not> d_disposed (heap c ! x)" for x
    using p1 p2 len unfolding progress_def newlyDisposed_def by (cases "x < length (heap c)") auto
  have nd1: "newlyDisposed c1 c2 x \<Longrightarrow> \<not> d_disposed (heap c ! x)" for x
    using p1 len unfolding progress_def newlyDisposed_def by auto
  obtain ms1 where ms1: "sent c1 = sent c @ ms1"
    "\<forall>m \<in> set ms1. \<exists>x. newlyDisposed c c1 x \<and> d_isScope (heap c ! x) \<and> m = teardown (d_guid (heap c ! x))"
    "\<forall>x. newlyDisposed c c1 x \<and> d_isScope (heap c ! x) \<longrightarrow> teardown (d_guid (heap c ! x)) \<in> set ms1"
    using p1 unfolding progress_def by blast
  obtain ms2 where ms2: "sent c2 = sent c1 @ ms2"
    "\<forall>m \<in> set ms2. \<exists>x. newlyDisposed c1 c2 x \<and> d_isScope (heap c1 ! x) \<and> m = teardown (d_guid (heap c1 ! x))"
    "\<forall>x. newlyDisposed c1 c2 x \<and> d_isScope (heap c1 ! x) \<longrightarrow> teardown (d_guid (heap c1 ! x)) \<in> set ms2"
    using p2 unfolding progress_def by blast
  have same: "x < length (heap c) \<Longrightarrow> d_guid (heap c1 ! x) = d_guid (heap c ! x) \<and> d_isScope (heap c1 ! x) = d_isScope (heap c ! x)" for x
    using p1 unfolding progress_def by simp
  have msgs: "\<exists>ms. sent c2 = sent c @ ms \<and>
         (\<forall>m \<in> set ms. \<exists>x. newlyDisposed c c2 x \<and> d_isScope (heap c ! x)
                              \<and> m = teardown (d_guid (heap c ! x))) \<and>
         (\<forall>x. newlyDisposed c c2 x \<and> d_isScope (heap c ! x)
               \<longrightarrow> teardown (d_guid (heap c ! x)) \<in> set ms)"
  proof (intro exI [of _ "ms1 @ ms2"] conjI ballI allI impI)
    show "sent c2 = sent c @ ms1 @ ms2" using ms1(1) ms2(1) by simp
  next
    fix m assume "m \<in> set (ms1 @ ms2)"
    then consider "m \<in> set ms1" | "m \<in> set ms2" by auto
    then show "\<exists>x. newlyDisposed c c2 x \<and> d_isScope (heap c ! x) \<and> m = teardown (d_guid (heap c ! x))"
    proof cases
      case 1
      with ms1(2) obtain x where "newlyDisposed c c1 x" "d_isScope (heap c ! x)" "m = teardown (d_guid (heap c ! x))"
        by blast
      then show ?thesis using nd by blast
    next
      case 2
      with ms2(2) obtain x where x: "newlyDisposed c1 c2 x" "d_isScope (heap c1 ! x)" "m = teardown (d_guid (heap c1 ! x))"
        by blast
      then have "x < length (heap c)" using len by (simp add: newlyDisposed_def)
      with x same [of x] nd1 [of x] nd [of x] show ?thesis by auto
    qed
  next
    fix x assume x: "newlyDisposed c c2 x \<and> d_isScope (heap c ! x)"
    then have xl: "x < length (heap c)" by (simp add: newlyDisposed_def)
    from x nd [of x] consider "newlyDisposed c c1 x" | "newlyDisposed c1 c2 x" by blast
    then show "teardown (d_guid (heap c ! x)) \<in> set (ms1 @ ms2)"
    proof cases
      case 1 with x ms1(3) show ?thesis by simp
    next
      case 2
      with x same [OF xl] have "newlyDisposed c1 c2 x \<and> d_isScope (heap c1 ! x)" by simp
      with ms2(3) have "teardown (d_guid (heap c1 ! x)) \<in> set ms2" by blast
      with same [OF xl] show ?thesis by simp
    qed
  qed
  have node: "d_guid (heap c2 ! x) = d_guid (heap c ! x) \<and>
         d_isScope (heap c2 ! x) = d_isScope (heap c ! x) \<and>
         d_parent (heap c2 ! x) = d_parent (heap c ! x) \<and>
         (d_disposed (heap c ! x) \<longrightarrow> d_disposed (heap c2 ! x)) \<and>
         set (d_dispatchers (heap c2 ! x)) \<subseteq> set (d_dispatchers (heap c ! x)) \<and>
         (newlyDisposed c c2 x \<longrightarrow>
            d_dispatchers (heap c2 ! x) = [] \<and>
            map_of (c_dispatchers c2) (d_guid (heap c ! x)) = None) \<and>
         (\<forall>e \<in> set (d_dispatchers (heap c ! x)) - set (d_dispatchers (heap c2 ! x)).
            snd e < length (heap c) \<and> d_disposed (heap c2 ! snd e))"
    if xl: "x < length (heap c)" for x
  proof -
    have n1: "d_guid (heap c1 ! x) = d_guid (heap c ! x)" "d_isScope (heap c1 ! x) = d_isScope (heap c ! x)"
      "d_parent (heap c1 ! x) = d_parent (heap c ! x)" "d_disposed (heap c ! x) \<longrightarrow> d_disposed (heap c1 ! x)"
      "set (d_dispatchers (heap c1 ! x)) \<subseteq> set (d_dispatchers (heap c ! x))"
      "newlyDisposed c c1 x \<longrightarrow> d_dispatchers (heap c1 ! x) = [] \<and> map_of (c_dispatchers c1) (d_guid (heap c ! x)) = None"
      "\<forall>e \<in> set (d_dispatchers (heap c ! x)) - set (d_dispatchers (heap c1 ! x)).
            snd e < length (heap c) \<and> d_disposed (heap c1 ! snd e)"
      using p1 xl unfolding progress_def by simp_all
    have n2: "d_guid (heap c2 ! x) = d_guid (heap c1 ! x)" "d_isScope (heap c2 ! x) = d_isScope (heap c1 ! x)"
      "d_parent (heap c2 ! x) = d_parent (heap c1 ! x)" "d_disposed (heap c1 ! x) \<longrightarrow> d_disposed (heap c2 ! x)"
      "set (d_dispatchers (heap c2 ! x)) \<subseteq> set (d_dispatchers (heap c1 ! x))"
      "newlyDisposed c1 c2 x \<longrightarrow> d_dispatchers (heap c2 ! x) = [] \<and> map_of (c_dispatchers c2) (d_guid (heap c1 ! x)) = None"
      "\<forall>e \<in> set (d_dispatchers (heap c1 ! x)) - set (d_dispatchers (heap c2 ! x)).
            snd e < length (heap c1) \<and> d_disposed (heap c2 ! snd e)"
      using p2 xl len unfolding progress_def by simp_all
    have reg: "set (c_dispatchers c2) \<subseteq> set (c_dispatchers c1)"
      using p2 unfolding progress_def by simp
    have mono2: "y < length (heap c) \<Longrightarrow> d_disposed (heap c1 ! y) \<Longrightarrow> d_disposed (heap c2 ! y)" for y
      using p2 len unfolding progress_def by simp
    have a: "newlyDisposed c c2 x \<longrightarrow>
            d_dispatchers (heap c2 ! x) = [] \<and> map_of (c_dispatchers c2) (d_guid (heap c ! x)) = None"
    proof
      assume "newlyDisposed c c2 x"
      with nd [of x] consider "newlyDisposed c c1 x" | "newlyDisposed c1 c2 x" by blast
      then show "d_dispatchers (heap c2 ! x) = [] \<and> map_of (c_dispatchers c2) (d_guid (heap c ! x)) = None"
      proof cases
        case 1
        with n1(6) have "d_dispatchers (heap c1 ! x) = []" "map_of (c_dispatchers c1) (d_guid (heap c ! x)) = None"
          by simp_all
        with n2(5) map_of_None_mono [OF reg] show ?thesis by simp
      next
        case 2
        with n2(6) n1(1) show ?thesis by simp
      qed
    qed
    have b: "\<forall>e \<in> set (d_dispatchers (heap c ! x)) - set (d_dispatchers (heap c2 ! x)).
            snd e < length (heap c) \<and> d_disposed (heap c2 ! snd e)"
    proof
      fix e assume e: "e \<in> set (d_dispatchers (heap c ! x)) - set (d_dispatchers (heap c2 ! x))"
      show "snd e < length (heap c) \<and> d_disposed (heap c2 ! snd e)"
      proof (cases "e \<in> set (d_dispatchers (heap c1 ! x))")
        case True
        with e n2(7) len show ?thesis by auto
      next
        case False
        with e n1(7) have "snd e < length (heap c)" "d_disposed (heap c1 ! snd e)" by auto
        with mono2 show ?thesis by simp
      qed
    qed
    from n1 n2 a b show ?thesis by auto
  qed
  show ?thesis
    unfolding progress_def
    using p1 p2 msgs node unfolding progress_def by (intro conjI allI impI) auto
qed

lemma disposePost_step:
  assumes wf: "wellFormed c" and a: "a < length (heap c)" and live: "\<not> d_disposed (heap c ! a)"
    and loop: "loopPost a (beginDispose a c) c4"
  shows "disposePost a c (finishDispose a c4)"
proof -
  let ?c0 = "beginDispose a c"
  let ?c' = "finishDispose a c4"
  from loop have wf4: "wellFormed c4" and p04: "progress ?c0 c4"
    and empty4: "d_dispatchers (heap c4 ! a) = []"
    and disp4: "d_disposed (heap c4 ! a)"
    and frame4: "\<forall>b < a. heap c4 ! b = heap ?c0 ! b"
    using a by (simp_all add: loopPost_def node_beginDispose)
  have len4: "length (heap c4) = length (heap c)"
    using p04 by (simp add: progress_def)
  have a4: "a < length (heap c4)" using a len4 by simp
  have reg4: "set (c_dispatchers c4) \<subseteq> set (c_dispatchers ?c0)"
    using p04 by (simp add: progress_def)
  have node4: "d_guid (heap c4 ! x) = d_guid (heap c ! x) \<and>
         d_isScope (heap c4 ! x) = d_isScope (heap c ! x) \<and>
         d_parent (heap c4 ! x) = d_parent (heap c ! x) \<and>
         (d_disposed (heap ?c0 ! x) \<longrightarrow> d_disposed (heap c4 ! x)) \<and>
         set (d_dispatchers (heap c4 ! x)) \<subseteq> set (d_dispatchers (heap ?c0 ! x)) \<and>
         (newlyDisposed ?c0 c4 x \<longrightarrow>
            d_dispatchers (heap c4 ! x) = [] \<and>
            map_of (c_dispatchers c4) (d_guid (heap c ! x)) = None) \<and>
         (\<forall>e \<in> set (d_dispatchers (heap ?c0 ! x)) - set (d_dispatchers (heap c4 ! x)).
            snd e < length (heap c) \<and> d_disposed (heap c4 ! snd e))"
    if "x < length (heap c)" for x
    using p04 that a unfolding progress_def by (simp add: node_beginDispose)
  obtain ms where ms: "sent c4 = sent c @ ms"
    "\<forall>m \<in> set ms. \<exists>x. newlyDisposed ?c0 c4 x \<and> d_isScope (heap ?c0 ! x)
                              \<and> m = teardown (d_guid (heap ?c0 ! x))"
    "\<forall>x. newlyDisposed ?c0 c4 x \<and> d_isScope (heap ?c0 ! x)
               \<longrightarrow> teardown (d_guid (heap ?c0 ! x)) \<in> set ms"
    using p04 unfolding progress_def by auto
  have nd0: "newlyDisposed ?c0 c4 x \<longleftrightarrow> x \<noteq> a \<and> newlyDisposed c ?c' x" for x
    using a len4 live unfolding newlyDisposed_def
    by (cases "x < length (heap c)") (auto simp: node_beginDispose node_finishDispose)
  have nda: "newlyDisposed c ?c' a"
    using a live disp4 len4 by (simp add: newlyDisposed_def node_finishDispose)
  have set0: "set (d_dispatchers (heap ?c0 ! x)) \<subseteq> set (d_dispatchers (heap c ! x))"
    if "x < length (heap c)" for x
    using that a by (auto simp: node_beginDispose in_set_delete)
  have reg0: "map_of (c_dispatchers ?c') (d_guid (heap c ! a)) = None"
  proof -
    have "map_of (c_dispatchers ?c0) (d_guid (heap c ! a)) = None"
      by (simp add: registry_beginDispose [OF a] delete_conv')
    from map_of_None_mono [OF reg4 this] show ?thesis by simp
  qed
  have node: "d_guid (heap ?c' ! x) = d_guid (heap c ! x) \<and>
         d_isScope (heap ?c' ! x) = d_isScope (heap c ! x) \<and>
         d_parent (heap ?c' ! x) = d_parent (heap c ! x) \<and>
         (d_disposed (heap c ! x) \<longrightarrow> d_disposed (heap ?c' ! x)) \<and>
         set (d_dispatchers (heap ?c' ! x)) \<subseteq> set (d_dispatchers (heap c ! x)) \<and>
         (newlyDisposed c ?c' x \<longrightarrow>
            d_dispatchers (heap ?c' ! x) = [] \<and>
            map_of (c_dispatchers ?c') (d_guid (heap c ! x)) = None) \<and>
         (\<forall>e \<in> set (d_dispatchers (heap c ! x)) - set (d_dispatchers (heap ?c' ! x)).
            snd e < length (heap c) \<and> d_disposed (heap ?c' ! snd e))"
    if xl: "x < length (heap c)" for x
  proof -
    have x4: "x < length (heap c4)" using xl len4 by simp
    note n4 = node4 [OF xl]
    have imm: "d_guid (heap ?c' ! x) = d_guid (heap c ! x)" "d_isScope (heap ?c' ! x) = d_isScope (heap c ! x)"
      "d_parent (heap ?c' ! x) = d_parent (heap c ! x)"
      using n4 by (simp_all add: node_finishDispose [OF x4])
    have mono: "d_disposed (heap c ! x) \<longrightarrow> d_disposed (heap ?c' ! x)"
      using n4 by (simp add: node_finishDispose [OF x4] node_beginDispose [OF a xl])
    have sub: "set (d_dispatchers (heap ?c' ! x)) \<subseteq> set (d_dispatchers (heap c ! x))"
      using n4 set0 [OF xl] by (auto simp: node_finishDispose [OF x4])
    have new: "newlyDisposed c ?c' x \<longrightarrow>
            d_dispatchers (heap ?c' ! x) = [] \<and> map_of (c_dispatchers ?c') (d_guid (heap c ! x)) = None"
    proof (cases "x = a")
      case True
      then show ?thesis using reg0 by (simp add: node_finishDispose [OF a4])
    next
      case False
      then show ?thesis using n4 nd0 [of x] by (simp add: node_finishDispose [OF x4])
    qed
    have lost: "\<forall>e \<in> set (d_dispatchers (heap c ! x)) - set (d_dispatchers (heap ?c' ! x)).
            snd e < length (heap c) \<and> d_disposed (heap ?c' ! snd e)"
    proof
      fix e assume e: "e \<in> set (d_dispatchers (heap c ! x)) - set (d_dispatchers (heap ?c' ! x))"
      then have ein: "(fst e, snd e) \<in> set (d_dispatchers (heap c ! x))" by simp
      note ch = wellFormedD_child [OF wf xl ein]
      have keep: "d_disposed (heap c4 ! y) \<Longrightarrow> y < length (heap c) \<Longrightarrow> d_disposed (heap ?c' ! y)" for y
        using len4 by (simp add: node_finishDispose)
      show "snd e < length (heap c) \<and> d_disposed (heap ?c' ! snd e)"
      proof (cases "e \<in> set (d_dispatchers (heap ?c0 ! x))")
        case False
        with e have "d_parent (heap c ! a) = Some x" "fst e = d_guid (heap c ! a)"
          using in_set_delete [of "fst e" "snd e"]
          by (auto simp: node_beginDispose [OF a xl] split: if_splits)
        with ch have "snd e = a"
          using live_guid_inj [OF wf _ a _ live, of "snd e"] by simp
        then show ?thesis using a keep [OF disp4 a] by simp
      next
        case True
        show ?thesis
        proof (cases "e \<in> set (d_dispatchers (heap c4 ! x))")
          case False
          with True n4 have "snd e < length (heap c)" "d_disposed (heap c4 ! snd e)" by auto
          then show ?thesis using keep by simp
        next
          case True
          with e have "x = a" by (auto simp: node_finishDispose [OF x4] split: if_splits)
          with True empty4 show ?thesis by simp
        qed
      qed
    qed
    from imm mono sub new lost show ?thesis by blast
  qed
  have own: "sent ?c' = sent c @ ms @ ownTeardown c a"
    using ms(1) node4 [OF a] by (simp add: sent_finishDispose [OF a4] ownTeardown_def teardown_def)
  have same0: "x < length (heap c) \<Longrightarrow> d_isScope (heap ?c0 ! x) = d_isScope (heap c ! x)
      \<and> d_guid (heap ?c0 ! x) = d_guid (heap c ! x)" for x
    using a by (simp add: node_beginDispose)
  have msA: "\<forall>m \<in> set ms. \<exists>x. x \<noteq> a \<and> newlyDisposed c ?c' x \<and> d_isScope (heap c ! x)
                              \<and> m = teardown (d_guid (heap c ! x))"
  proof
    fix m assume "m \<in> set ms"
    with ms(2) obtain x where x: "newlyDisposed ?c0 c4 x" "d_isScope (heap ?c0 ! x)"
      "m = teardown (d_guid (heap ?c0 ! x))" by blast
    then have "x < length (heap c)" by (simp add: newlyDisposed_def)
    with x same0 [of x] nd0 [of x]
    show "\<exists>x. x \<noteq> a \<and> newlyDisposed c ?c' x \<and> d_isScope (heap c ! x) \<and> m = teardown (d_guid (heap c ! x))"
      by auto
  qed
  have msB: "\<forall>x. newlyDisposed c ?c' x \<and> d_isScope (heap c ! x)
               \<longrightarrow> teardown (d_guid (heap c ! x)) \<in> set (ms @ ownTeardown c a)"
  proof (intro allI impI)
    fix x assume x: "newlyDisposed c ?c' x \<and> d_isScope (heap c ! x)"
    then have xl: "x < length (heap c)" by (simp add: newlyDisposed_def)
    show "teardown (d_guid (heap c ! x)) \<in> set (ms @ ownTeardown c a)"
    proof (cases "x = a")
      case True
      with x show ?thesis by (simp add: ownTeardown_def)
    next
      case False
      with x nd0 [of x] same0 [OF xl] have "newlyDisposed ?c0 c4 x \<and> d_isScope (heap ?c0 ! x)" by simp
      with ms(3) have "teardown (d_guid (heap ?c0 ! x)) \<in> set ms" by blast
      with same0 [OF xl] show ?thesis by simp
    qed
  qed
  have msA': "\<forall>m \<in> set (ms @ ownTeardown c a). \<exists>x. newlyDisposed c ?c' x \<and> d_isScope (heap c ! x)
                              \<and> m = teardown (d_guid (heap c ! x))"
  proof
    fix m assume "m \<in> set (ms @ ownTeardown c a)"
    then consider "m \<in> set ms" | "m \<in> set (ownTeardown c a)" by auto
    then show "\<exists>x. newlyDisposed c ?c' x \<and> d_isScope (heap c ! x) \<and> m = teardown (d_guid (heap c ! x))"
    proof cases
      case 1 with msA show ?thesis by blast
    next
      case 2 then show ?thesis using nda by (auto simp: ownTeardown_def split: if_splits)
    qed
  qed
  have prog: "progress c ?c'"
    unfolding progress_def
  proof (intro conjI)
    show "\<exists>ms. sent ?c' = sent c @ ms \<and>
         (\<forall>m \<in> set ms. \<exists>x. newlyDisposed c ?c' x \<and> d_isScope (heap c ! x)
                              \<and> m = teardown (d_guid (heap c ! x))) \<and>
         (\<forall>x. newlyDisposed c ?c' x \<and> d_isScope (heap c ! x)
               \<longrightarrow> teardown (d_guid (heap c ! x)) \<in> set ms)"
      using own msA' msB by (intro exI [of _ "ms @ ownTeardown c a"]) simp
    show "set (c_dispatchers ?c') \<subseteq> set (c_dispatchers c)"
      using reg4 by (auto simp: registry_beginDispose [OF a] in_set_delete)
    show "\<forall>x<length (heap c). d_guid (heap ?c' ! x) = d_guid (heap c ! x) \<and>
         d_isScope (heap ?c' ! x) = d_isScope (heap c ! x) \<and>
         d_parent (heap ?c' ! x) = d_parent (heap c ! x) \<and>
         (d_disposed (heap c ! x) \<longrightarrow> d_disposed (heap ?c' ! x)) \<and>
         set (d_dispatchers (heap ?c' ! x)) \<subseteq> set (d_dispatchers (heap c ! x)) \<and>
         (newlyDisposed c ?c' x \<longrightarrow>
            d_dispatchers (heap ?c' ! x) = [] \<and>
            map_of (c_dispatchers ?c') (d_guid (heap c ! x)) = None) \<and>
         (\<forall>e \<in> set (d_dispatchers (heap c ! x)) - set (d_dispatchers (heap ?c' ! x)).
            snd e < length (heap c) \<and> d_disposed (heap ?c' ! snd e))"
      using node by blast
  qed (use p04 len4 in \<open>simp_all add: progress_def\<close>)
  have frame: "\<forall>b < a. heap ?c' ! b =
         (if d_parent (heap c ! a) = Some b
          then (heap c ! b)\<lparr>d_dispatchers :=
                 AList.delete (d_guid (heap c ! a)) (d_dispatchers (heap c ! b))\<rparr>
          else heap c ! b)"
  proof (intro allI impI)
    fix b assume b: "b < a"
    then have bl: "b < length (heap c)" "b < length (heap c4)" using a len4 by simp_all
    have "heap ?c' ! b = heap c4 ! b" using b bl by (simp add: heap_finishDispose)
    also have "\<dots> = heap ?c0 ! b" using frame4 b by simp
    finally show "heap ?c' ! b =
         (if d_parent (heap c ! a) = Some b
          then (heap c ! b)\<lparr>d_dispatchers :=
                 AList.delete (d_guid (heap c ! a)) (d_dispatchers (heap c ! b))\<rparr>
          else heap c ! b)"
      using b bl a by (simp add: heap_beginDispose)
  qed
  show ?thesis
    unfolding disposePost_def
    using wellFormed_finishDispose [OF wf4 a4] prog frame own msA disp4
    by (simp add: node_finishDispose [OF a4])
qed

lemma childDispatchers_Cons:
  assumes wf: "wellFormed c" and a: "a < length (heap c)"
    and ks: "childDispatchers a c = d # ds"
  shows "a < d \<and> d < length (heap c) \<and> \<not> d_disposed (heap c ! d) \<and> d_parent (heap c ! d) = Some a
         \<and> map snd (AList.delete (d_guid (heap c ! d)) (d_dispatchers (heap c ! a))) = ds"
proof -
  from ks obtain e rest where m: "d_dispatchers (heap c ! a) = e # rest" "snd e = d" "map snd rest = ds"
    by (auto simp: childDispatchers_def)
  then have "(fst e, d) \<in> set (d_dispatchers (heap c ! a))" by auto
  note ch = wellFormedD_child [OF wf a this]
  from wellFormedD_distinct [OF wf a] m(1) have "fst e \<notin> fst ` set rest" by simp
  then have "AList.delete (fst e) rest = rest" by simp
  moreover have "AList.delete (fst e) (e # rest) = AList.delete (fst e) rest"
    by (cases e) simp
  ultimately show ?thesis using ch m by simp
qed

lemma dispose_loopPost_Cons:
  assumes wf: "wellFormed c" and a: "a < length (heap c)"
    and ks: "childDispatchers a c = d # ds"
    and post: "disposePost d c c1"
  shows "wellFormed c1 \<and> a < length (heap c1) \<and> childDispatchers a c1 = ds
         \<and> progress c c1 \<and> d_disposed (heap c1 ! a) = d_disposed (heap c ! a)
         \<and> (\<forall>b < a. heap c1 ! b = heap c ! b)"
proof -
  note ch = childDispatchers_Cons [OF wf a ks]
  from post have p: "progress c c1" and wf1: "wellFormed c1"
    and frame: "\<forall>b < d. heap c1 ! b =
         (if d_parent (heap c ! d) = Some b
          then (heap c ! b)\<lparr>d_dispatchers :=
                 AList.delete (d_guid (heap c ! d)) (d_dispatchers (heap c ! b))\<rparr>
          else heap c ! b)"
    by (simp_all add: disposePost_def)
  have len: "length (heap c1) = length (heap c)" using p by (simp add: progress_def)
  have ata: "heap c1 ! a = (heap c ! a)\<lparr>d_dispatchers :=
                 AList.delete (d_guid (heap c ! d)) (d_dispatchers (heap c ! a))\<rparr>"
    using frame ch by simp
  have below: "\<forall>b < a. heap c1 ! b = heap c ! b"
    using frame ch by auto
  show ?thesis
    using wf1 a len p ata below ch by (simp add: childDispatchers_def)
qed

lemma dispose_post_aux:
  "wellFormed c \<and> this < length (heap c) \<and> \<not> d_disposed (heap c ! this) \<longrightarrow>
     (\<exists>c'. dispose this c = (Returned (), c') \<and> disposePost this c c')"
  "\<forall>a. wellFormed c \<and> a < length (heap c) \<and> childDispatchers a c = ds \<longrightarrow>
     (\<exists>c'. disposeAll ds c = (Returned (), c') \<and> loopPost a c c')"
proof (induction this c and ds c rule: dispose_disposeAll.induct)
  case (1 this c)
  show ?case
  proof (intro impI, elim conjE)
    assume wf: "wellFormed c" and a: "this < length (heap c)" and live: "\<not> d_disposed (heap c ! this)"
    let ?c0 = "beginDispose this c"
    have "wellFormed ?c0" by (rule wellFormed_beginDispose [OF wf a live])
    moreover have "this < length (heap ?c0)" using a by simp
    ultimately obtain c4 where c4: "disposeAll (childDispatchers this ?c0) ?c0 = (Returned (), c4)"
      and loop: "loopPost this ?c0 c4"
      using "1.IH" a live unfolding beginDispose_def by (metis not_le)
    have "dispose this c = (Returned (), finishDispose this c4)"
      using a live c4 by (simp add: dispose.simps beginDispose_def)
    with disposePost_step [OF wf a live loop] show "\<exists>c'. dispose this c = (Returned (), c') \<and> disposePost this c c'"
      by blast
  qed
next
  case (2 c)
  show ?case
    by (auto simp: loopPost_def progress_refl childDispatchers_def)
next
  case (3 d ds c)
  show ?case
  proof (intro allI impI, elim conjE)
    fix a
    assume wf: "wellFormed c" and a: "a < length (heap c)" and ks: "childDispatchers a c = d # ds"
    note ch = childDispatchers_Cons [OF wf a ks]
    with "3.IH"(1) wf obtain c1 where c1: "dispose d c = (Returned (), c1)" and post: "disposePost d c c1"
      by blast
    note st = dispose_loopPost_Cons [OF wf a ks post]
    from "3.IH"(2) [OF c1 [symmetric] refl] st
    obtain c' where c': "disposeAll ds c1 = (Returned (), c')" and lp: "loopPost a c1 c'"
      by blast
    have "loopPost a c c'"
      using lp st progress_trans [of c c1 c'] by (simp add: loopPost_def)
    with c1 c' show "\<exists>c'. disposeAll (d # ds) c = (Returned (), c') \<and> loopPost a c c'"
      by simp
  qed
qed


lemma newConnection_eq:
  "newConnection =
     \<lparr>heap = [\<lparr>d_isScope = True, d_parent = None, d_scope = Some 0, d_dispatchers = [],
               d_disposed = False, d_guid = [], d_type = [], d_object = PlainObject\<rparr>],
      c_dispatchers = [([], 0)], c_rootDispatcher = 0, c_waitOperations = [],
      sent = [], notified = [], clockReads = 0\<rparr>"
  by (simp add: newConnection_def newDispatcher_def emptyConnection_def)

lemma exampleConnection_eq:
  "exampleConnection =
     \<lparr>heap =
        [\<lparr>d_isScope = True, d_parent = None, d_scope = Some 0,
          d_dispatchers = [(''browser@1'', 1)], d_disposed = False, d_guid = [], d_type = [],
          d_object = PlainObject\<rparr>,
         \<lparr>d_isScope = True, d_parent = Some 0, d_scope = Some 1,
          d_dispatchers = [(''context@2'', 2)], d_disposed = False, d_guid = ''browser@1'',
          d_type = ''Browser'', d_object = SdkObject None None\<rparr>,
         \<lparr>d_isScope = True, d_parent = Some 1, d_scope = Some 2,
          d_dispatchers = [(''page@3'', 3)], d_disposed = False, d_guid = ''context@2'',
          d_type = ''BrowserContext'', d_object = SdkObject None None\<rparr>,
         \<lparr>d_isScope = True, d_parent = Some 2, d_scope = Some 3,
          d_dispatchers = [(''frame@4'', 4)], d_disposed = False, d_guid = ''page@3'',
          d_type = ''Page'', d_object = SdkObject (Some ''page1'') None\<rparr>,
         \<lparr>d_isScope = False, d_parent = Some 3, d_scope = Some 3,
          d_dispatchers = [], d_disposed = False, d_guid = ''frame@4'',
          d_type = ''Frame'', d_object = SdkObject (Some ''page1'') (Some ''frame1'')\<rparr>],
      c_dispatchers = [([], 0), (''browser@1'', 1), (''context@2'', 2), (''page@3'', 3),
                       (''frame@4'', 4)],
      c_rootDispatcher = 0, c_waitOperations = [],
      sent = [Event [] ''__create__''
                (Obj [(''type'', Str ''Browser''), (''initializer'', Obj []),
                      (''guid'', Str ''browser@1'')]),
              Event ''browser@1'' ''__create__''
                (Obj [(''type'', Str ''BrowserContext''), (''initializer'', Obj []),
                      (''guid'', Str ''context@2'')]),
              Event ''context@2'' ''__create__''
                (Obj [(''type'', Str ''Page''), (''initializer'', Obj []),
                      (''guid'', Str ''page@3'')]),
              Event ''page@3'' ''__create__''
                (Obj [(''type'', Str ''Frame''), (''initializer'', Obj []),
                      (''guid'', Str ''frame@4'')])],
      notified = [], clockReads = 0\<rparr>"
  by (simp add: exampleConnection_def newConnection_eq newDispatcher_def modify_def
      sendMessageToClient_def Let_def)

lemma update_fresh: "map_of al k = None \<Longrightarrow> AList.update k v al = al @ [(k, v)]"
  by (induction al) auto

lemma wellFormed_sendMessageToClient [simp]:
  "wellFormed (sendMessageToClient g m p c) = wellFormed c"
  by (simp add: wellFormed_def)

lemma wellFormed_allocate:
  assumes wf: "wellFormed c" and fresh: "map_of (c_dispatchers c) guid = None"
    and par: "\<And>p. par = Some p \<Longrightarrow> p < length (heap c)"
  shows "wellFormed (c\<lparr>heap := heap c @
                      [\<lparr>d_isScope = isScope, d_parent = par, d_scope = sc,
                        d_dispatchers = [], d_disposed = False,
                        d_guid = guid, d_type = type, d_object = object\<rparr>],
                    c_dispatchers := AList.update guid (length (heap c)) (c_dispatchers c)\<rparr>)"
    (is "wellFormed ?c1")
proof (rule wellFormedI)
  show "c_rootDispatcher ?c1 < length (heap ?c1)"
    using wellFormedD_root [OF wf] by simp
next
  fix a assume "a < length (heap ?c1)"
  then consider "a < length (heap c)" | "a = length (heap c)" by fastforce
  then show "distinct (map fst (d_dispatchers (heap ?c1 ! a)))"
    using wellFormedD_distinct [OF wf, of a] by cases (simp_all add: nth_append)
next
  fix a g b
  assume "a < length (heap ?c1)" and mem: "(g, b) \<in> set (d_dispatchers (heap ?c1 ! a))"
  then consider "a < length (heap c)" | "a = length (heap c)" by fastforce
  then show "a < b \<and> b < length (heap ?c1) \<and> d_guid (heap ?c1 ! b) = g
      \<and> d_parent (heap ?c1 ! b) = Some a \<and> \<not> d_disposed (heap ?c1 ! b)"
  proof cases
    case 1
    with mem have "(g, b) \<in> set (d_dispatchers (heap c ! a))" by (simp add: nth_append)
    from wellFormedD_child [OF wf 1 this] show ?thesis by (simp add: nth_append)
  next
    case 2
    with mem show ?thesis by simp
  qed
next
  fix a
  assume "a < length (heap ?c1)" and lv: "\<not> d_disposed (heap ?c1 ! a)"
  then consider "a < length (heap c)" | "a = length (heap c)" by fastforce
  then show "map_of (c_dispatchers ?c1) (d_guid (heap ?c1 ! a)) = Some a"
  proof cases
    case 1
    with lv have "\<not> d_disposed (heap c ! a)" by (simp add: nth_append)
    from wellFormedD_registered [OF wf 1 this] fresh 1 show ?thesis
      by (auto simp: nth_append update_conv')
  next
    case 2
    then show ?thesis by (simp add: update_conv')
  qed
qed

lemma wellFormed_link:
  assumes wf: "wellFormed c" and p: "p < n" and n: "n < length (heap c)"
    and node: "d_guid (heap c ! n) = guid" "d_parent (heap c ! n) = Some p" "\<not> d_disposed (heap c ! n)"
    and fresh: "map_of (d_dispatchers (heap c ! p)) guid = None"
  shows "wellFormed (modify p (\<lambda>d. d\<lparr>d_dispatchers := AList.update guid n (d_dispatchers d)\<rparr>) c)"
    (is "wellFormed ?c2")
proof -
  have pl: "p < length (heap c)" using p n by simp
  have nd: "x < length (heap c) \<Longrightarrow>
      d_guid (heap ?c2 ! x) = d_guid (heap c ! x) \<and> d_parent (heap ?c2 ! x) = d_parent (heap c ! x)
      \<and> d_disposed (heap ?c2 ! x) = d_disposed (heap c ! x)
      \<and> d_dispatchers (heap ?c2 ! x) =
          (if x = p then d_dispatchers (heap c ! p) @ [(guid, n)] else d_dispatchers (heap c ! x))" for x
    using fresh by (simp add: nth_heap_modify update_fresh)
  show ?thesis
  proof (rule wellFormedI)
    show "c_rootDispatcher ?c2 < length (heap ?c2)"
      using wellFormedD_root [OF wf] by simp
  next
    fix a assume "a < length (heap ?c2)"
    then have a: "a < length (heap c)" by simp
    have "guid \<notin> fst ` set (d_dispatchers (heap c ! p))"
      using fresh by (simp add: map_of_eq_None_iff)
    then show "distinct (map fst (d_dispatchers (heap ?c2 ! a)))"
      using wellFormedD_distinct [OF wf a] nd [OF a] by (cases "a = p") auto
  next
    fix a g b
    assume "a < length (heap ?c2)" and mem: "(g, b) \<in> set (d_dispatchers (heap ?c2 ! a))"
    then have a: "a < length (heap c)" by simp
    from mem nd [OF a] consider "(g, b) \<in> set (d_dispatchers (heap c ! a))" | "a = p" "g = guid" "b = n"
      by (cases "a = p") auto
    then show "a < b \<and> b < length (heap ?c2) \<and> d_guid (heap ?c2 ! b) = g
      \<and> d_parent (heap ?c2 ! b) = Some a \<and> \<not> d_disposed (heap ?c2 ! b)"
    proof cases
      case 1
      note ch = wellFormedD_child [OF wf a 1]
      then have "b < length (heap c)" by simp
      from nd [OF this] ch show ?thesis by simp
    next
      case 2
      with nd [OF n] node p n show ?thesis by simp
    qed
  next
    fix a
    assume "a < length (heap ?c2)" and lv: "\<not> d_disposed (heap ?c2 ! a)"
    then have a: "a < length (heap c)" by simp
    with lv nd [OF a] have "\<not> d_disposed (heap c ! a)" by simp
    from wellFormedD_registered [OF wf a this] nd [OF a] show
      "map_of (c_dispatchers ?c2) (d_guid (heap ?c2 ! a)) = Some a" by simp
  qed
qed

lemma wellFormed_newDispatcher:
  assumes wf: "wellFormed c"
  shows "wellFormed (snd (newDispatcher parent object type initializer isScope guid c))"
proof (cases parent)
  case ParentConnection
  then show ?thesis
    using wf by (auto simp: newDispatcher_def Let_def intro!: wellFormed_allocate)
next
  case (ParentDispatcher p)
  show ?thesis
  proof (cases "length (heap c) \<le> p \<or> map_of (c_dispatchers c) guid \<noteq> None")
    case True
    then show ?thesis using wf ParentDispatcher by (auto simp: newDispatcher_def Let_def)
  next
    case False
    then have p: "p < length (heap c)" and fresh: "map_of (c_dispatchers c) guid = None" by simp_all
    define c1 where "c1 = c\<lparr>heap := heap c @
                      [\<lparr>d_isScope = isScope, d_parent = Some p,
                        d_scope = (if isScope then Some (length (heap c)) else Some p),
                        d_dispatchers = [], d_disposed = False,
                        d_guid = guid, d_type = type, d_object = object\<rparr>],
                    c_dispatchers := AList.update guid (length (heap c)) (c_dispatchers c)\<rparr>"
    have wf1: "wellFormed c1"
      unfolding c1_def using p by (intro wellFormed_allocate [OF wf fresh]) simp
    have res: "snd (newDispatcher parent object type initializer isScope guid c) =
        (if map_of (d_dispatchers (heap c1 ! p)) guid \<noteq> None then c1
         else sendMessageToClient (d_guid (heap c1 ! p)) ''__create__''
                (Obj [(''type'', Str type), (''initializer'', initializer), (''guid'', Str guid)])
                (modify p (\<lambda>d. d\<lparr>d_dispatchers :=
                     AList.update guid (length (heap c)) (d_dispatchers d)\<rparr>) c1))"
      using p fresh ParentDispatcher
      by (simp add: newDispatcher_def Let_def c1_def modify_keeps [where F = d_guid])
    have "wellFormed (modify p (\<lambda>d. d\<lparr>d_dispatchers :=
                AList.update guid (length (heap c)) (d_dispatchers d)\<rparr>) c1)"
      if "map_of (d_dispatchers (heap c1 ! p)) guid = None"
      using p that by (intro wellFormed_link [OF wf1]) (simp_all add: c1_def nth_append)
    with wf1 show ?thesis by (simp add: res)
  qed
qed

lemma wellFormed_newConnection: "wellFormed newConnection"
  by (simp add: newConnection_eq wellFormed_def)

lemma wellFormed_exampleConnection: "wellFormed exampleConnection"
  by (simp add: exampleConnection_def Let_def wellFormed_newDispatcher wellFormed_newConnection)

lemma wellFormed_dispose: 
  assumes wf: "wellFormed c"
  shows "wellFormed (snd (dispose a c))"
proof (cases "a < length (heap c) \<and> \<not> d_disposed (heap c ! a)")
  case True
  with dispose_post_aux(1) [of c a] wf show ?thesis by (auto simp: disposePost_def)
next
  case False
  with wf show ?thesis by (auto simp: dispose.simps)
qed

lemma dispose_returns:
  assumes "wellFormed c" "a < length (heap c)" "\<not> d_disposed (heap c ! a)"
  obtains c' where "dispose a c = (Returned (), c')" "disposePost a c c'"
  using dispose_post_aux(1) [of c a] assms by blast

lemma descendant_newlyDisposed:
  assumes wf: "wellFormed c" and p: "progress c c'" and nd: "newlyDisposed c c' a"
    and d: "descendant c a d"
  shows "a < d \<and> newlyDisposed c c' d"
  using d
proof (induction rule: descendant.induct)
  case (child b)
  from nd have a: "a < length (heap c)" by (simp add: newlyDisposed_def)
  from child obtain g where g: "(g, b) \<in> set (d_dispatchers (heap c ! a))"
    by (auto simp: childDispatchers_def)
  note ch = wellFormedD_child [OF wf a g]
  from p a nd have "d_dispatchers (heap c' ! a) = []" by (simp add: progress_def)
  with g have "(g, b) \<in> set (d_dispatchers (heap c ! a)) - set (d_dispatchers (heap c' ! a))" by simp
  with p a have "d_disposed (heap c' ! snd (g, b))" unfolding progress_def by blast
  with ch show ?case by (simp add: newlyDisposed_def)
next
  case (step b d)
  then have nb: "newlyDisposed c c' b" and ab: "a < b" by simp_all
  then have b: "b < length (heap c)" by (simp add: newlyDisposed_def)
  from step obtain g where g: "(g, d) \<in> set (d_dispatchers (heap c ! b))"
    by (auto simp: childDispatchers_def)
  note ch = wellFormedD_child [OF wf b g]
  from p b nb have "d_dispatchers (heap c' ! b) = []" by (simp add: progress_def)
  with g have "(g, d) \<in> set (d_dispatchers (heap c ! b)) - set (d_dispatchers (heap c' ! b))" by simp
  with p b have "d_disposed (heap c' ! snd (g, d))" unfolding progress_def by blast
  with ch ab show ?case by (simp add: newlyDisposed_def)
qed

lemma teardown_inj: "teardown g = teardown g' \<longleftrightarrow> g = g'"
  by (simp add: teardown_def)

lemma dispose_keeps:
  "length (heap (snd (dispose this c))) = length (heap c) \<and>
   (\<forall>x < length (heap c). d_disposed (heap c ! x) \<longrightarrow> d_disposed (heap (snd (dispose this c)) ! x))"
  "length (heap (snd (disposeAll ds c))) = length (heap c) \<and>
   (\<forall>x < length (heap c). d_disposed (heap c ! x) \<longrightarrow> d_disposed (heap (snd (disposeAll ds c)) ! x))"
proof (induction this c and ds c rule: dispose_disposeAll.induct)
  case (1 this c)
  show ?case
  proof (cases "length (heap c) \<le> this \<or> d_disposed (heap c ! this)")
    case True
    then show ?thesis by (auto simp: dispose.simps)
  next
    case False
    then have a: "this < length (heap c)" and live: "\<not> d_disposed (heap c ! this)" by simp_all
    let ?c0 = "beginDispose this c"
    obtain r c4 where r: "disposeAll (childDispatchers this ?c0) ?c0 = (r, c4)" by force
    have ih: "length (heap c4) = length (heap c) \<and>
      (\<forall>x < length (heap c). d_disposed (heap ?c0 ! x) \<longrightarrow> d_disposed (heap c4 ! x))"
      using "1.IH" a live r by (simp add: beginDispose_def)
    have c0: "x < length (heap c) \<Longrightarrow> d_disposed (heap c ! x) \<Longrightarrow> d_disposed (heap ?c0 ! x)" for x
      using a by (simp add: node_beginDispose)
    have res: "snd (dispose this c) = (case r of Threw e \<Rightarrow> c4 | Returned u \<Rightarrow> finishDispose this c4)"
      using a live r by (simp add: dispose.simps beginDispose_def split: completion.split)
    show ?thesis
      using ih c0 by (cases r) (auto simp: res node_finishDispose)
  qed
next
  case (2 c)
  show ?case by simp
next
  case (3 d ds c)
  obtain r c1 where r: "dispose d c = (r, c1)" by force
  show ?case
  proof (cases r)
    case (Returned u)
    with "3.IH"(1) "3.IH"(2) [OF r [symmetric] Returned] r show ?thesis by auto
  next
    case (Threw e)
    with "3.IH"(1) r show ?thesis by auto
  qed
qed

lemma dispose_Returned_disposed:
  assumes "dispose a c = (Returned u, c')"
  shows "a < length (heap c') \<and> d_disposed (heap c' ! a)"
proof -
  from assms have a: "a < length (heap c)" and live: "\<not> d_disposed (heap c ! a)"
    by (auto simp: dispose.simps split: if_splits)
  let ?c0 = "beginDispose a c"
  obtain r c4 where r: "disposeAll (childDispatchers a ?c0) ?c0 = (r, c4)" by force
  with assms a live have c': "c' = finishDispose a c4"
    by (auto simp: dispose.simps beginDispose_def split: completion.splits)
  have "length (heap c4) = length (heap c)" "d_disposed (heap c4 ! a)"
    using dispose_keeps(2) [of "childDispatchers a ?c0" ?c0] r a by (simp_all add: node_beginDispose)
  then show ?thesis using a by (simp add: c' node_finishDispose)
qed

lemma dispose_exampleConnection:
  "dispose 2 exampleConnection =
    (Returned (),
     \<lparr>heap =
        [\<lparr>d_isScope = True, d_parent = None, d_scope = Some 0,
          d_dispatchers = [(''browser@1'', 1)], d_disposed = False, d_guid = [], d_type = [],
          d_object = PlainObject\<rparr>,
         \<lparr>d_isScope = True, d_parent = Some 0, d_scope = Some 1,
          d_dispatchers = [], d_disposed = False, d_guid = ''browser@1'',
          d_type = ''Browser'', d_object = SdkObject None None\<rparr>,
         \<lparr>d_isScope = True, d_parent = Some 1, d_scope = Some 2,
          d_dispatchers = [], d_disposed = True, d_guid = ''context@2'',
          d_type = ''BrowserContext'', d_object = SdkObject None None\<rparr>,
         \<lparr>d_isScope = True, d_parent = Some 2, d_scope = Some 3,
          d_dispatchers = [], d_disposed = True, d_guid = ''page@3'',
          d_type = ''Page'', d_object = SdkObject (Some ''page1'') None\<rparr>,
         \<lparr>d_isScope = False, d_parent = Some 3, d_scope = Some 3,
          d_dispatchers = [], d_disposed = True, d_guid = ''frame@4'',
          d_type = ''Frame'', d_object = SdkObject (Some ''page1'') (Some ''frame1'')\<rparr>],
      c_dispatchers = [([], 0), (''browser@1'', 1)], c_rootDispatcher = 0, c_waitOperations = [],
      sent = sent exampleConnection @
             [Event ''page@3'' ''__dispose__'' (Obj []), Event ''context@2'' ''__dispose__'' (Obj [])],
      notified = [], clockReads = 0\<rparr>)"
  by (simp add: exampleConnection_eq dispose.simps markDisposed_def cleanUp_def finishDispose_def
      childDispatchers_def modify_def sendMessageToClient_def Let_def)

lemma disposedExample_node:
  "4 < length (heap disposedExample)" "d_disposed (heap disposedExample ! 4)"
  by (simp_all add: disposedExample_def dispose_exampleConnection)

lemma reusedGuidBefore_eq:
  "reusedGuidBefore =
     \<lparr>heap =
        [\<lparr>d_isScope = True, d_parent = None, d_scope = Some 0,
          d_dispatchers = [(''browser@1'', 1)], d_disposed = False, d_guid = [], d_type = [],
          d_object = PlainObject\<rparr>,
         \<lparr>d_isScope = True, d_parent = Some 0, d_scope = Some 1,
          d_dispatchers = [(''context@2'', 2)], d_disposed = False, d_guid = ''browser@1'',
          d_type = ''Browser'', d_object = SdkObject None None\<rparr>,
         \<lparr>d_isScope = True, d_parent = Some 1, d_scope = Some 2,
          d_dispatchers = [(''page@3'', 3)], d_disposed = False, d_guid = ''context@2'',
          d_type = ''BrowserContext'', d_object = SdkObject None None\<rparr>,
         \<lparr>d_isScope = True, d_parent = Some 2, d_scope = Some 3,
          d_dispatchers = [], d_disposed = False, d_guid = ''page@3'',
          d_type = ''Page'', d_object = SdkObject (Some ''page1'') None\<rparr>,
         \<lparr>d_isScope = False, d_parent = Some 3, d_scope = Some 3,
          d_dispatchers = [], d_disposed = True, d_guid = ''frame@4'',
          d_type = ''Frame'', d_object = SdkObject (Some ''page1'') (Some ''frame1'')\<rparr>],
      c_dispatchers = [([], 0), (''browser@1'', 1), (''context@2'', 2), (''page@3'', 3)],
      c_rootDispatcher = 0, c_waitOperations = [],
      sent = sent exampleConnection, notified = [], clockReads = 0\<rparr>"
  by (simp add: reusedGuidBefore_def exampleConnection_eq dispose.simps markDisposed_def cleanUp_def
      finishDispose_def childDispatchers_def modify_def sendMessageToClient_def Let_def)

section \<open>Outbound payload substitution\<close>

lemma replaceDispatchersWithGuids_chain:
  "replaceDispatchersWithGuids payload =
     (if \<not> truthy payload then payload
      else case payload of
          DispatcherV g \<Rightarrow> Obj [(''guid'', Str g)]
        | Arr ps \<Rightarrow> Arr (map replaceDispatchersWithGuids ps)
        | _ \<Rightarrow>
            if typeofObject payload
            then Obj (map (\<lambda>kv. (fst kv, replaceDispatchersWithGuids (snd kv)))
                       (ownEnumerable payload))
            else payload)"
  by (cases payload) simp_all


lemma replaceDispatchersWithGuids_clean:
  "\<not> containsDispatcher (replaceDispatchersWithGuids payload)"
  by (induction payload rule: replaceDispatchersWithGuids.induct) auto

lemma replaceDispatchersWithGuids_plain:
  "\<not> containsInstance (replaceDispatchersWithGuids payload)"
  by (induction payload rule: replaceDispatchersWithGuids.induct) auto

lemma replaceDispatchersWithGuids_fixes_clean:
  "\<not> containsDispatcher payload \<Longrightarrow> \<not> containsInstance payload \<Longrightarrow>
   replaceDispatchersWithGuids payload = payload"
proof (induction payload rule: replaceDispatchersWithGuids.induct)
  case (2 ps)
  then have "map replaceDispatchersWithGuids ps = map (\<lambda>p. p) ps"
    by (intro map_cong) auto
  then show ?case by simp
next
  case (3 kvs)
  then have "map (\<lambda>kv. (fst kv, replaceDispatchersWithGuids (snd kv))) kvs = map (\<lambda>kv. kv) kvs"
    by (intro map_cong) auto
  then show ?case by simp
qed simp_all

section \<open>What dispatch sends and records\<close>

lemma those_map_Some:
  "(\<And>x. x \<in> set xs \<Longrightarrow> \<exists>v. f x = Some v) \<Longrightarrow> \<exists>vs. those (map f xs) = Some vs"
proof (induction xs)
  case Nil
  then show ?case by simp
next
  case (Cons x xs)
  then obtain v vs where "f x = Some v" "those (map f xs) = Some vs" by (meson list.set_intros)
  then show ?case by simp
qed

lemma debugScopeState_returns:
  "wellFormed c \<Longrightarrow> a < length (heap c) \<Longrightarrow> length (heap c) - a \<le> n \<Longrightarrow>
   \<exists>v. debugScopeState n c a = Some v"
proof (induction n arbitrary: a)
  case 0
  then show ?case by simp
next
  case (Suc n)
  have "\<exists>v. debugScopeState n c b = Some v" if "b \<in> set (childDispatchers a c)" for b
  proof -
    from that obtain g where "(g, b) \<in> set (d_dispatchers (heap c ! a))"
      by (auto simp: childDispatchers_def)
    from wellFormedD_child [OF Suc.prems(1,2) this] have "a < b" "b < length (heap c)" by simp_all
    with Suc.prems(3) show ?thesis by (intro Suc.IH [OF Suc.prems(1)]) simp_all
  qed
  from those_map_Some [of "childDispatchers a c" "debugScopeState n c", OF this]
  obtain vs where "those (map (debugScopeState n c) (childDispatchers a c)) = Some vs" by blast
  with Suc.prems(2) show ?case by simp
qed

lemma sent_simps [simp]:
  "sent (snd (monotonicTime env c)) = sent c"
  "sent (notify n c) = sent c"
  "sent (reply w c) = sent c @ [w]"
  by (simp_all add: monotonicTime_def notify_def reply_def)








lemma waitMessage_simps [simp]:
  "m_id (waitMessage i g info) = i"
  "m_guid (waitMessage i g info) = g"
  "m_method (waitMessage i g info) = ''waitForEventInfo''"
  "m_params (waitMessage i g info) = Obj [(''info'', info)]"
  by (simp_all add: waitMessage_def)

lemma waitInfo_simps [simp]:
  "waitInfo (Obj [(''info'', beforeInfo)]) = Some beforeInfo"
  "waitInfo (Obj [(''info'', logInfo m)]) = Some (logInfo m)"
  "waitInfo (Obj [(''info'', afterInfo)]) = Some afterInfo"
  "phaseOf beforeInfo = Before" "phaseOf (logInfo m) = Log" "phaseOf afterInfo = After"
  "getProp beforeInfo ''waitId'' = Str ''w1''" "getProp (logInfo m) ''waitId'' = Str ''w1''"
  "getProp afterInfo ''waitId'' = Str ''w1''"
  "getProp beforeInfo ''apiName'' = Str ''x''" "getProp (logInfo m) ''message'' = Str m"
  "getProp afterInfo ''error'' = Undefined"
  by (simp_all add: waitInfo_def phaseOf_def beforeInfo_def logInfo_def afterInfo_def)

lemma dispatch_before_step:
  assumes "map_of (c_dispatchers c) g = Some a" "isSdkObject (d_object (heap c ! a))"
    and "validateCall env (heap c ! a) (waitMessage i g beforeInfo) = Inr valid"
  shows "\<exists>c1 b. dispatch n env (waitMessage i g beforeInfo) c = Some (Returned (), c1)
      \<and> heap c1 = heap c \<and> c_dispatchers c1 = c_dispatchers c
      \<and> notified c1 = notified c @ [OnBeforeCall (d_object (heap c ! a)) b]
      \<and> (\<exists>r. waitGet (c_waitOperations c1) (Str ''w1'') = Some r
             \<and> cm_apiName r = Str ''x'' \<and> cm_log r = [])"
  using assms
  by (simp add: dispatch_def dispatchCall_def waitBefore_def runMethod_def invokeMethod_def
      monotonicTime_def notify_def reply_def newCallMetadata_def waitGet_def waitSet_def
      update_conv' Let_def)

lemma dispatch_log_step:
  assumes "map_of (c_dispatchers c) g = Some a" "isSdkObject (d_object (heap c ! a))"
    and "validateCall env (heap c ! a) (waitMessage i g (logInfo m)) = Inr valid"
    and "waitGet (c_waitOperations c) (Str ''w1'') = Some r"
  shows "\<exists>c1. dispatch n env (waitMessage i g (logInfo m)) c = Some (Returned (), c1)
      \<and> heap c1 = heap c \<and> c_dispatchers c1 = c_dispatchers c
      \<and> notified c1 = notified c @
           [OnCallLog ''api'' (Str m) (d_object (heap c ! a)) (r\<lparr>cm_log := cm_log r @ [Str m]\<rparr>)]
      \<and> waitGet (c_waitOperations c1) (Str ''w1'') = Some (r\<lparr>cm_log := cm_log r @ [Str m]\<rparr>)"
  using assms
  by (simp add: dispatch_def dispatchCall_def waitLog_def
      monotonicTime_def notify_def waitGet_def waitSet_def update_conv' Let_def)

lemma dispatch_after_step:
  assumes "map_of (c_dispatchers c) g = Some a" "isSdkObject (d_object (heap c ! a))"
    and "validateCall env (heap c ! a) (waitMessage i g afterInfo) = Inr valid"
    and "waitGet (c_waitOperations c) (Str ''w1'') = Some r"
  shows "\<exists>c1. dispatch n env (waitMessage i g afterInfo) c = Some (Returned (), c1)
      \<and> heap c1 = heap c \<and> c_dispatchers c1 = c_dispatchers c
      \<and> notified c1 = notified c @
           [OnAfterCall (d_object (heap c ! a))
              (r\<lparr>cm_endTime := clock env (Suc (clockReads c)), cm_error := Undefined\<rparr>)]
      \<and> waitGet (c_waitOperations c1) (Str ''w1'') = None"
  using assms
  by (simp add: dispatch_def dispatchCall_def waitAfter_def
      monotonicTime_def notify_def waitGet_def waitDelete_def delete_conv' Let_def)

lemma exampleConnection_page:
  "map_of (c_dispatchers exampleConnection) ''page@3'' = Some 3"
  "map_of (c_dispatchers exampleConnection) ''frame@4'' = Some 4"
  "map_of (c_dispatchers exampleConnection) ''nobody'' = None"
  "d_object (heap exampleConnection ! 3) = SdkObject (Some ''page1'') None"
  "d_type (heap exampleConnection ! 3) = ''Page''"
  "c_waitOperations exampleConnection = []"
  "notified exampleConnection = []"
  "clockReads exampleConnection = 0"
  "c_rootDispatcher exampleConnection = 0"
  "length (heap exampleConnection) = 5"
  by (simp_all add: exampleConnection_eq)

lemma validateCall_exampleEnv:
  "validateCall exampleEnv d msg = Inr (m_params msg, ownEnumerable (m_metadata msg))"
  by (simp add: validateCall_def exampleEnv_def hasMethod_def)

lemma waitMessage_metadata [simp]: "m_metadata (waitMessage i g info) = Undefined"
  by (simp add: waitMessage_def)


text \<open>The spread of line 203 at work: a property of the metadata reaches the record, one
  named \<^verbatim>\<open>id\<close> replaces the id of the message, and one named like a key written after the
  spread is lost.\<close>

lemma newCallMetadata_spread:
  "newCallMetadata d msg
     [(''apiName'', Str ''page.goto''), (''internal'', Bool True), (''id'', Num 3),
      (''type'', Str ''other'')] t
   = \<lparr>cm_id = Num 3, cm_stack = Undefined,
      cm_pageId = (case d_object d of PlainObject \<Rightarrow> None | SdkObject p f \<Rightarrow> p),
      cm_frameId = (case d_object d of PlainObject \<Rightarrow> None | SdkObject p f \<Rightarrow> f),
      cm_startTime = t, cm_endTime = 0, cm_type = d_type d, cm_method = m_method msg,
      cm_params = (if truthy (m_params msg) then m_params msg else Obj []),
      cm_log = [], cm_apiName = Str ''page.goto'', cm_error = Undefined,
      cm_rest = [(''internal'', Bool True)]\<rparr>"
  by (simp add: newCallMetadata_def spreadProp_def callMetadataKeys_def)

text \<open>Neither an event nor a dispatched message touches the tree or the registry.\<close>

lemma wellFormed_cong:
  "heap c' = heap c \<Longrightarrow> c_dispatchers c' = c_dispatchers c \<Longrightarrow>
   c_rootDispatcher c' = c_rootDispatcher c \<Longrightarrow> wellFormed c' = wellFormed c"
  by (simp add: wellFormed_def)

lemma wellFormed_dispatchEvent:
  "wellFormed (snd (dispatchEvent underTest this meth params c)) = wellFormed c"
  by (simp add: dispatchEvent_def)

lemma tree_simps [simp]:
  "heap (snd (monotonicTime env c)) = heap c"
  "c_dispatchers (snd (monotonicTime env c)) = c_dispatchers c"
  "c_rootDispatcher (snd (monotonicTime env c)) = c_rootDispatcher c"
  "heap (notify n c) = heap c" "c_dispatchers (notify n c) = c_dispatchers c"
  "c_rootDispatcher (notify n c) = c_rootDispatcher c"
  "heap (reply w c) = heap c" "c_dispatchers (reply w c) = c_dispatchers c"
  "c_rootDispatcher (reply w c) = c_rootDispatcher c"
  by (simp_all add: monotonicTime_def notify_def reply_def)

lemma runMethod_tree:
  "heap (snd (runMethod env d msg validParams cm c)) = heap c
   \<and> c_dispatchers (snd (runMethod env d msg validParams cm c)) = c_dispatchers c
   \<and> c_rootDispatcher (snd (runMethod env d msg validParams cm c)) = c_rootDispatcher c"
  by (simp add: runMethod_def catchError_def Let_def split: sum.split)

lemma dispatchCall_tree:
  "heap (snd (dispatchCall env msg d c)) = heap c
   \<and> c_dispatchers (snd (dispatchCall env msg d c)) = c_dispatchers c
   \<and> c_rootDispatcher (snd (dispatchCall env msg d c)) = c_rootDispatcher c"
  by (simp add: dispatchCall_def ordinaryCall_def waitBefore_def waitLog_def waitAfter_def
      catchError_def runMethod_tree Let_def
      split: sum.split option.split waitPhase.split)

lemma dispatch_tree:
  assumes d: "dispatch stackDepth env msg c = Some (r, c')"
  shows "heap c' = heap c \<and> c_dispatchers c' = c_dispatchers c
      \<and> c_rootDispatcher c' = c_rootDispatcher c"
proof (cases "map_of (c_dispatchers c) (m_guid msg)")
  case None
  then have "c' = reply (ReplyError (m_id msg)
       (serializeError env (JsError ''Error'' (kBrowserOrContextClosedError env)))) c"
    using d by (simp add: dispatch_def)
  then show ?thesis by simp
next
  case (Some a)
  show ?thesis
  proof (cases "m_method msg = ''debugScopeState''")
    case True
    then obtain state where "c' = reply (ReplyResult (m_id msg) state) c"
      using d Some by (auto simp add: dispatch_def split: option.splits)
    then show ?thesis by simp
  next
    case False
    with d Some have "dispatchCall env msg (heap c ! a) c = (r, c')"
      by (simp add: dispatch_def)
    then have "snd (dispatchCall env msg (heap c ! a) c) = c'" by simp
    with dispatchCall_tree [of env msg "heap c ! a" c] show ?thesis by simp
  qed
qed

lemma wellFormed_dispatch:
  "dispatch stackDepth env msg c = Some (r, c') \<Longrightarrow> wellFormed c' = wellFormed c"
  using dispatch_tree [of stackDepth env msg c r c'] by (intro wellFormed_cong) simp_all

section \<open>The claims\<close>




text \<open>
  C2, as amended. For every message to a registered, instrumentable target that passes
  validation and carries a wait descriptor with phase \<^verbatim>\<open>after\<close> whose wait identifier is
  not in the pending-wait table, \<^verbatim>\<open>dispatch\<close> throws (a \<^verbatim>\<open>TypeError\<close>, from \<^verbatim>\<open>finally\<close>,
  outside every \<^verbatim>\<open>catch\<close>) and sends nothing: the connection is as before but for the two
  readings of the clock.
\<close>

theorem dispatch_after_unknown:
  assumes "map_of (c_dispatchers c) (m_guid msg) = Some a" "m_method msg \<noteq> ''debugScopeState''"
    and "validateCall env (heap c ! a) msg = Inr valid" "isSdkObject (d_object (heap c ! a))"
    and "waitInfo (m_params msg) = Some info" "phaseOf info = After"
    and "waitGet (c_waitOperations c) (getProp info ''waitId'') = None"
  shows "dispatch stackDepth env msg c =
           Some (Threw (cannotSetOfUndefined ''endTime''),
                 c\<lparr>clockReads := Suc (Suc (clockReads c))\<rparr>)"
  using assms
  by (simp add: dispatch_def dispatchCall_def waitAfter_def monotonicTime_def Let_def)

theorem dispatch_after_unknown_witness:
  "map_of (c_dispatchers exampleConnection) ''page@3'' = Some 3
   \<and> isSdkObject (d_object (heap exampleConnection ! 3))
   \<and> waitGet (c_waitOperations exampleConnection) (Str ''w1'') = None
   \<and> dispatch 5 exampleEnv (waitMessage 1 ''page@3'' afterInfo) exampleConnection
       = Some (Threw (cannotSetOfUndefined ''endTime''), exampleConnection\<lparr>clockReads := 2\<rparr>)"
  using dispatch_after_unknown [of exampleConnection "waitMessage 1 ''page@3'' afterInfo" 3 exampleEnv
          "(Obj [(''info'', afterInfo)], [])" afterInfo 5]
  by (simp add: exampleConnection_page validateCall_exampleEnv waitGet_def)

text \<open>
  C2 as stated fails for phase \<^verbatim>\<open>log\<close>: with no wait pending, the \<^verbatim>\<open>log\<close> message for
  \<^verbatim>\<open>w1\<close> returns normally and the client gets an error reply under the message's
  identifier, the serialised \<^verbatim>\<open>TypeError\<close>.
\<close>

theorem log_unknown_counterexample:
  "waitGet (c_waitOperations exampleConnection) (Str ''w1'') = None
   \<and> dispatch 5 exampleEnv (waitMessage 1 ''page@3'' (logInfo ''m1'')) exampleConnection
       = Some (Returned (),
               exampleConnection
                 \<lparr>sent := sent exampleConnection @
                    [ReplyError 1 (serializeError exampleEnv (cannotReadOfUndefined ''log''))],
                  clockReads := 2\<rparr>)"
  by (simp add: dispatch_def dispatchCall_def waitLog_def catchError_def monotonicTime_def
      reply_def newCallMetadata_def waitGet_def exampleConnection_page validateCall_exampleEnv Let_def)

text \<open>
  C3. For the messages \<^verbatim>\<open>before\<close> (operation name \<^verbatim>\<open>x\<close>), \<^verbatim>\<open>log\<close> \<^verbatim>\<open>m1\<close>, \<^verbatim>\<open>log\<close> \<^verbatim>\<open>m2\<close>,
  \<^verbatim>\<open>after\<close> of the wait \<^verbatim>\<open>w1\<close>, sent as \<^verbatim>\<open>waitForEventInfo\<close> calls to a registered,
  instrumentable node and passing validation, dispatched in this order: all four are
  handled and return; the instrumentation sink is called four times, \<^verbatim>\<open>onBeforeCall\<close>,
  \<^verbatim>\<open>onCallLog\<close> with \<^verbatim>\<open>m1\<close>, \<^verbatim>\<open>onCallLog\<close> with \<^verbatim>\<open>m2\<close> and, once and last, \<^verbatim>\<open>onAfterCall\<close>
  with a record whose operation name is \<^verbatim>\<open>x\<close> and whose log is \<^verbatim>\<open>[m1, m2]\<close>; and the
  pending-wait table has nothing under \<^verbatim>\<open>w1\<close> then.
\<close>

theorem wait_sequence:
  assumes reg: "map_of (c_dispatchers c) g = Some a"
    and sdk: "isSdkObject (d_object (heap c ! a))"
    and valid: "\<forall>msg \<in> {waitMessage i1 g beforeInfo, waitMessage i2 g (logInfo ''m1''),
                         waitMessage i3 g (logInfo ''m2''), waitMessage i4 g afterInfo}.
                  \<exists>v. validateCall env (heap c ! a) msg = Inr v"
  shows "\<exists>c' b l1 l2 r.
      dispatchAll stackDepth env
        [waitMessage i1 g beforeInfo, waitMessage i2 g (logInfo ''m1''),
         waitMessage i3 g (logInfo ''m2''), waitMessage i4 g afterInfo] c = Some (Returned (), c')
      \<and> notified c' = notified c @
           [OnBeforeCall (d_object (heap c ! a)) b,
            OnCallLog ''api'' (Str ''m1'') (d_object (heap c ! a)) l1,
            OnCallLog ''api'' (Str ''m2'') (d_object (heap c ! a)) l2,
            OnAfterCall (d_object (heap c ! a)) r]
      \<and> cm_apiName r = Str ''x'' \<and> cm_log r = [Str ''m1'', Str ''m2'']
      \<and> waitGet (c_waitOperations c') (Str ''w1'') = None"
proof -
  from valid obtain v1 v2 v3 v4 where v:
    "validateCall env (heap c ! a) (waitMessage i1 g beforeInfo) = Inr v1"
    "validateCall env (heap c ! a) (waitMessage i2 g (logInfo ''m1'')) = Inr v2"
    "validateCall env (heap c ! a) (waitMessage i3 g (logInfo ''m2'')) = Inr v3"
    "validateCall env (heap c ! a) (waitMessage i4 g afterInfo) = Inr v4"
    by auto
  from dispatch_before_step [OF reg sdk v(1), of stackDepth]
  obtain c1 b r0 where s1: "dispatch stackDepth env (waitMessage i1 g beforeInfo) c = Some (Returned (), c1)"
    "heap c1 = heap c" "c_dispatchers c1 = c_dispatchers c"
    "notified c1 = notified c @ [OnBeforeCall (d_object (heap c ! a)) b]"
    "waitGet (c_waitOperations c1) (Str ''w1'') = Some r0" "cm_apiName r0 = Str ''x''" "cm_log r0 = []"
    by blast
  have reg1: "map_of (c_dispatchers c1) g = Some a" "isSdkObject (d_object (heap c1 ! a))"
    "validateCall env (heap c1 ! a) (waitMessage i2 g (logInfo ''m1'')) = Inr v2"
    using reg sdk v s1 by simp_all
  from dispatch_log_step [OF reg1 s1(5), of stackDepth]
  obtain c2 where s2: "dispatch stackDepth env (waitMessage i2 g (logInfo ''m1'')) c1 = Some (Returned (), c2)"
    "heap c2 = heap c1" "c_dispatchers c2 = c_dispatchers c1"
    "notified c2 = notified c1 @
       [OnCallLog ''api'' (Str ''m1'') (d_object (heap c1 ! a)) (r0\<lparr>cm_log := cm_log r0 @ [Str ''m1'']\<rparr>)]"
    "waitGet (c_waitOperations c2) (Str ''w1'') = Some (r0\<lparr>cm_log := cm_log r0 @ [Str ''m1'']\<rparr>)"
    by blast
  let ?r1 = "r0\<lparr>cm_log := cm_log r0 @ [Str ''m1'']\<rparr>"
  have reg2: "map_of (c_dispatchers c2) g = Some a" "isSdkObject (d_object (heap c2 ! a))"
    "validateCall env (heap c2 ! a) (waitMessage i3 g (logInfo ''m2'')) = Inr v3"
    using reg sdk v s1 s2 by simp_all
  from dispatch_log_step [OF reg2 s2(5), of stackDepth]
  obtain c3 where s3: "dispatch stackDepth env (waitMessage i3 g (logInfo ''m2'')) c2 = Some (Returned (), c3)"
    "heap c3 = heap c2" "c_dispatchers c3 = c_dispatchers c2"
    "notified c3 = notified c2 @
       [OnCallLog ''api'' (Str ''m2'') (d_object (heap c2 ! a)) (?r1\<lparr>cm_log := cm_log ?r1 @ [Str ''m2'']\<rparr>)]"
    "waitGet (c_waitOperations c3) (Str ''w1'') = Some (?r1\<lparr>cm_log := cm_log ?r1 @ [Str ''m2'']\<rparr>)"
    by blast
  let ?r2 = "?r1\<lparr>cm_log := cm_log ?r1 @ [Str ''m2'']\<rparr>"
  have reg3: "map_of (c_dispatchers c3) g = Some a" "isSdkObject (d_object (heap c3 ! a))"
    "validateCall env (heap c3 ! a) (waitMessage i4 g afterInfo) = Inr v4"
    using reg sdk v s1 s2 s3 by simp_all
  define t where "t = clock env (Suc (clockReads c3))"
  from dispatch_after_step [OF reg3 s3(5), of stackDepth, folded t_def]
  obtain c4 where s4: "dispatch stackDepth env (waitMessage i4 g afterInfo) c3 = Some (Returned (), c4)"
    "notified c4 = notified c3 @
       [OnAfterCall (d_object (heap c3 ! a)) (?r2\<lparr>cm_endTime := t, cm_error := Undefined\<rparr>)]"
    "waitGet (c_waitOperations c4) (Str ''w1'') = None"
    by blast
  let ?r = "?r2\<lparr>cm_endTime := t, cm_error := Undefined\<rparr>"
  have all: "dispatchAll stackDepth env
        [waitMessage i1 g beforeInfo, waitMessage i2 g (logInfo ''m1''),
         waitMessage i3 g (logInfo ''m2''), waitMessage i4 g afterInfo] c = Some (Returned (), c4)"
    using s1(1) s2(1) s3(1) s4(1) by simp
  have n: "notified c4 = notified c @
           [OnBeforeCall (d_object (heap c ! a)) b,
            OnCallLog ''api'' (Str ''m1'') (d_object (heap c ! a)) ?r1,
            OnCallLog ''api'' (Str ''m2'') (d_object (heap c ! a)) ?r2,
            OnAfterCall (d_object (heap c ! a)) ?r]"
    using s1 s2 s3 s4 by simp
  have "cm_apiName ?r = Str ''x''" "cm_log ?r = [Str ''m1'', Str ''m2'']"
    using s1(6,7) by simp_all
  with all n s4(3) show ?thesis by blast
qed

theorem wait_sequence_witness:
  "map_of (c_dispatchers exampleConnection) ''page@3'' = Some 3
   \<and> isSdkObject (d_object (heap exampleConnection ! 3))
   \<and> (\<exists>c' b l1 l2 r.
      dispatchAll 5 exampleEnv
        [waitMessage 1 ''page@3'' beforeInfo, waitMessage 2 ''page@3'' (logInfo ''m1''),
         waitMessage 3 ''page@3'' (logInfo ''m2''), waitMessage 4 ''page@3'' afterInfo]
        exampleConnection = Some (Returned (), c')
      \<and> notified c' =
           [OnBeforeCall (SdkObject (Some ''page1'') None) b,
            OnCallLog ''api'' (Str ''m1'') (SdkObject (Some ''page1'') None) l1,
            OnCallLog ''api'' (Str ''m2'') (SdkObject (Some ''page1'') None) l2,
            OnAfterCall (SdkObject (Some ''page1'') None) r]
      \<and> cm_apiName r = Str ''x'' \<and> cm_log r = [Str ''m1'', Str ''m2'']
      \<and> waitGet (c_waitOperations c') (Str ''w1'') = None)"
  using wait_sequence [of exampleConnection "''page@3''" 3 1 2 3 4 exampleEnv 5]
  by (simp add: exampleConnection_page validateCall_exampleEnv)

text \<open>
  C4, as amended. In a well-formed connection, with room on the stack for the depth of
  the tree: for every message whose method is the introspection method and whose target
  identifier is registered, whichever node it names, \<^verbatim>\<open>dispatch\<close> returns and all it does
  is send one reply, the snapshot of the root, for every validator and with no
  instrumentation call; when the target identifier is not registered, the reply is the
  error that the object is closed instead.
\<close>

theorem dispatch_debugScopeState:
  assumes "wellFormed c" "m_method msg = ''debugScopeState''" "length (heap c) \<le> stackDepth"
  shows "(map_of (c_dispatchers c) (m_guid msg) \<noteq> None \<longrightarrow>
            (\<exists>state. debugScopeState stackDepth c (c_rootDispatcher c) = Some state
               \<and> dispatch stackDepth env msg c =
                   Some (Returned (), c\<lparr>sent := sent c @ [ReplyResult (m_id msg) state]\<rparr>)))
       \<and> (map_of (c_dispatchers c) (m_guid msg) = None \<longrightarrow>
            dispatch stackDepth env msg c =
              Some (Returned (),
                    c\<lparr>sent := sent c @
                         [ReplyError (m_id msg)
                            (serializeError env
                               (JsError ''Error'' (kBrowserOrContextClosedError env)))]\<rparr>))"
proof -
  have "length (heap c) - c_rootDispatcher c \<le> stackDepth" using assms(3) by simp
  from debugScopeState_returns [OF assms(1) wellFormedD_root [OF assms(1)] this]
  obtain state where "debugScopeState stackDepth c (c_rootDispatcher c) = Some state" by blast
  then show ?thesis using assms(2) by (auto simp: dispatch_def reply_def)
qed

theorem dispatch_debugScopeState_witness:
  "wellFormed exampleConnection \<and> length (heap exampleConnection) \<le> 5
   \<and> map_of (c_dispatchers exampleConnection) ''frame@4'' \<noteq> None
   \<and> (\<exists>state. debugScopeState 5 exampleConnection (c_rootDispatcher exampleConnection) = Some state
         \<and> dispatch 5 exampleEnv (introspectMessage ''frame@4'') exampleConnection =
             Some (Returned (), exampleConnection\<lparr>sent := sent exampleConnection @ [ReplyResult 7 state]\<rparr>))
   \<and> dispatch 5 exampleEnv (introspectMessage ''nobody'') exampleConnection =
       Some (Returned (),
             exampleConnection\<lparr>sent := sent exampleConnection @
               [ReplyError 7 (serializeError exampleEnv
                  (JsError ''Error'' (kBrowserOrContextClosedError exampleEnv)))]\<rparr>)"
  using dispatch_debugScopeState [OF wellFormed_exampleConnection, of "introspectMessage ''frame@4''" 5 exampleEnv]
    dispatch_debugScopeState [OF wellFormed_exampleConnection, of "introspectMessage ''nobody''" 5 exampleEnv]
    wellFormed_exampleConnection
  by (simp add: exampleConnection_page introspectMessage_def)

text \<open>
  C4 as stated fails: the target is looked up before the method is looked at, so the
  introspection call to an identifier that is not registered gets the error reply, not
  the snapshot (which the root would give).
\<close>

theorem introspection_counterexample:
  "m_method (introspectMessage ''nobody'') = ''debugScopeState''
   \<and> debugScopeState 5 exampleConnection (c_rootDispatcher exampleConnection) \<noteq> None
   \<and> dispatch 5 exampleEnv (introspectMessage ''nobody'') exampleConnection =
       Some (Returned (),
             exampleConnection\<lparr>sent := sent exampleConnection @
               [ReplyError 7 (serializeError exampleEnv
                  (JsError ''Error'' (kBrowserOrContextClosedError exampleEnv)))]\<rparr>)"
proof -
  have "length (heap exampleConnection) - c_rootDispatcher exampleConnection \<le> 5"
    by (simp add: exampleConnection_page)
  from debugScopeState_returns [OF wellFormed_exampleConnection wellFormedD_root [OF wellFormed_exampleConnection] this]
  show ?thesis
    by (auto simp add: dispatch_def reply_def exampleConnection_page introspectMessage_def)
qed

text \<open>
  C5. For every live node \<open>N\<close> of a well-formed connection, \<^verbatim>\<open>dispose()\<close> on \<open>N\<close> returns,
  and when it has returned: \<open>N\<close> and every descendant of \<open>N\<close> are disposed and the registry
  has no entry under the identifier of any of them; the messages sent during the call are
  some messages \<open>ms\<close> followed by the teardown notification of \<open>N\<close> if \<open>N\<close> is a scope and by
  nothing if it is not; no teardown notification under the identifier of \<open>N\<close> is among
  \<open>ms\<close> (so one is sent if and only if \<open>N\<close> is a scope, and it is the last message); and
  the teardown notification of every descendant that is a scope is among \<open>ms\<close>, before
  that of \<open>N\<close>.
\<close>

theorem dispose_live_node:
  assumes wf: "wellFormed c" and a: "N < length (heap c)" and live: "\<not> d_disposed (heap c ! N)"
  shows "\<exists>c' ms. dispose N c = (Returned (), c')
     \<and> (\<forall>d. d = N \<or> descendant c N d \<longrightarrow>
            d_disposed (heap c' ! d) \<and> map_of (c_dispatchers c') (d_guid (heap c ! d)) = None)
     \<and> sent c' = sent c @ ms @ (if d_isScope (heap c ! N) then [teardown (d_guid (heap c ! N))] else [])
     \<and> teardown (d_guid (heap c ! N)) \<notin> set ms
     \<and> (\<forall>d. descendant c N d \<and> d_isScope (heap c ! d) \<longrightarrow> teardown (d_guid (heap c ! d)) \<in> set ms)"
proof -
  from dispose_returns [OF wf a live] obtain c' where c': "dispose N c = (Returned (), c')"
    and post: "disposePost N c c'" by blast
  from post have p: "progress c c'" and dN: "d_disposed (heap c' ! N)"
    by (simp_all add: disposePost_def)
  from post obtain ms where ms: "sent c' = sent c @ ms @ ownTeardown c N"
    "\<forall>m \<in> set ms. \<exists>x. x \<noteq> N \<and> newlyDisposed c c' x \<and> d_isScope (heap c ! x)
                              \<and> m = teardown (d_guid (heap c ! x))"
    unfolding disposePost_def by blast
  have ndN: "newlyDisposed c c' N" using a live dN by (simp add: newlyDisposed_def)
  have nd: "descendant c N d \<Longrightarrow> N < d \<and> newlyDisposed c c' d" for d
    by (rule descendant_newlyDisposed [OF wf p ndN])
  have reg: "newlyDisposed c c' d \<Longrightarrow> map_of (c_dispatchers c') (d_guid (heap c ! d)) = None" for d
    using p unfolding progress_def newlyDisposed_def by blast
  have other: "x \<noteq> N \<Longrightarrow> newlyDisposed c c' x \<Longrightarrow> d_guid (heap c ! x) \<noteq> d_guid (heap c ! N)" for x
    using live_guid_inj [OF wf _ a _ live, of x] by (auto simp: newlyDisposed_def)
  have notin: "teardown (d_guid (heap c ! N)) \<notin> set ms"
  proof
    assume "teardown (d_guid (heap c ! N)) \<in> set ms"
    with ms(2) obtain x where "x \<noteq> N" "newlyDisposed c c' x"
      "teardown (d_guid (heap c ! N)) = teardown (d_guid (heap c ! x))" by blast
    with other [of x] show False by (simp add: teardown_inj)
  qed
  from p obtain ms' where ms': "sent c' = sent c @ ms'"
    "\<forall>x. newlyDisposed c c' x \<and> d_isScope (heap c ! x) \<longrightarrow> teardown (d_guid (heap c ! x)) \<in> set ms'"
    unfolding progress_def by blast
  from ms(1) ms'(1) have eq: "ms' = ms @ ownTeardown c N" by simp
  have scopes: "teardown (d_guid (heap c ! d)) \<in> set ms"
    if "descendant c N d \<and> d_isScope (heap c ! d)" for d
  proof -
    from that nd [of d] have d: "N < d" "newlyDisposed c c' d" "d_isScope (heap c ! d)" by simp_all
    with ms'(2) eq have "teardown (d_guid (heap c ! d)) \<in> set (ms @ ownTeardown c N)" by blast
    moreover have "d_guid (heap c ! d) \<noteq> d_guid (heap c ! N)" using other [of d] d by simp
    ultimately show ?thesis by (auto simp: ownTeardown_def teardown_inj split: if_splits)
  qed
  show ?thesis
  proof (intro exI [of _ c'] exI [of _ ms] conjI allI impI)
    show "dispose N c = (Returned (), c')" by (rule c')
    show "sent c' = sent c @ ms @ (if d_isScope (heap c ! N) then [teardown (d_guid (heap c ! N))] else [])"
      using ms(1) by (simp add: ownTeardown_def)
    show "teardown (d_guid (heap c ! N)) \<notin> set ms" by (rule notin)
  next
    fix d assume "d = N \<or> descendant c N d"
    then have "newlyDisposed c c' d" using ndN nd by blast
    then show "d_disposed (heap c' ! d)" "map_of (c_dispatchers c') (d_guid (heap c ! d)) = None"
      using reg by (simp_all add: newlyDisposed_def)
  next
    fix d assume "descendant c N d \<and> d_isScope (heap c ! d)"
    then show "teardown (d_guid (heap c ! d)) \<in> set ms" by (rule scopes)
  qed
qed

theorem dispose_live_node_witness:
  "wellFormed exampleConnection \<and> 2 < length (heap exampleConnection)
   \<and> \<not> d_disposed (heap exampleConnection ! 2) \<and> descendant exampleConnection 2 4
   \<and> (\<exists>c' ms. dispose 2 exampleConnection = (Returned (), c')
         \<and> d_disposed (heap c' ! 2) \<and> d_disposed (heap c' ! 4)
         \<and> map_of (c_dispatchers c') ''context@2'' = None
         \<and> map_of (c_dispatchers c') ''frame@4'' = None
         \<and> sent c' = sent exampleConnection @ ms @ [teardown ''context@2'']
         \<and> teardown ''context@2'' \<notin> set ms \<and> teardown ''page@3'' \<in> set ms)"
proof -
  have a: "2 < length (heap exampleConnection)" and live: "\<not> d_disposed (heap exampleConnection ! 2)"
    by (simp_all add: exampleConnection_eq)
  have d3: "descendant exampleConnection 2 3"
    by (rule descendant.child) (simp add: exampleConnection_eq childDispatchers_def)
  have d4: "descendant exampleConnection 2 4"
    by (rule descendant.step [OF d3]) (simp add: exampleConnection_eq childDispatchers_def)
  from dispose_live_node [OF wellFormed_exampleConnection a live]
  obtain c' ms where r: "dispose 2 exampleConnection = (Returned (), c')"
    and all: "\<forall>d. d = 2 \<or> descendant exampleConnection 2 d \<longrightarrow>
            d_disposed (heap c' ! d) \<and> map_of (c_dispatchers c') (d_guid (heap exampleConnection ! d)) = None"
    and s: "sent c' = sent exampleConnection @ ms @
        (if d_isScope (heap exampleConnection ! 2) then [teardown (d_guid (heap exampleConnection ! 2))] else [])"
    and n: "teardown (d_guid (heap exampleConnection ! 2)) \<notin> set ms"
    and sc: "\<forall>d. descendant exampleConnection 2 d \<and> d_isScope (heap exampleConnection ! d)
               \<longrightarrow> teardown (d_guid (heap exampleConnection ! d)) \<in> set ms"
    by blast
  from all d4 have "d_disposed (heap c' ! 2)" "d_disposed (heap c' ! 4)"
    "map_of (c_dispatchers c') (d_guid (heap exampleConnection ! 2)) = None"
    "map_of (c_dispatchers c') (d_guid (heap exampleConnection ! 4)) = None"
    by blast+
  moreover from sc d3 have "d_isScope (heap exampleConnection ! 3) \<longrightarrow>
     teardown (d_guid (heap exampleConnection ! 3)) \<in> set ms" by blast
  ultimately have "d_disposed (heap c' ! 2) \<and> d_disposed (heap c' ! 4)
         \<and> map_of (c_dispatchers c') ''context@2'' = None
         \<and> map_of (c_dispatchers c') ''frame@4'' = None
         \<and> sent c' = sent exampleConnection @ ms @ [teardown ''context@2'']
         \<and> teardown ''context@2'' \<notin> set ms \<and> teardown ''page@3'' \<in> set ms"
    using s n by (simp add: exampleConnection_eq)
  with r a live d4 wellFormed_exampleConnection show ?thesis by blast
qed

text \<open>
  C6, as amended. In a well-formed connection, constructing a node whose identifier is
  registered at that time throws the assertion error and leaves the connection as it
  was; and when the constructor returns, the new node has the identifier it was given,
  the registry holds the new node under it, and no node that is not disposed has that
  identifier. (The identifier of a disposed node is not registered any more, and the
  constructor accepts it again: \<open>guid_reused_counterexample\<close>.)
\<close>

theorem newDispatcher_guid:
  assumes wf: "wellFormed c"
    and par: "case parent of ParentConnection \<Rightarrow> True | ParentDispatcher p \<Rightarrow> p < length (heap c)"
  shows "(map_of (c_dispatchers c) guid \<noteq> None \<longrightarrow>
            newDispatcher parent object type initializer isScope guid c = (Threw assertionError, c))
       \<and> (\<forall>a c'. newDispatcher parent object type initializer isScope guid c = (Returned a, c') \<longrightarrow>
            a = length (heap c) \<and> d_guid (heap c' ! a) = guid
            \<and> map_of (c_dispatchers c') guid = Some a
            \<and> (\<forall>x < length (heap c). \<not> d_disposed (heap c ! x) \<longrightarrow> d_guid (heap c ! x) \<noteq> guid))"
proof (intro conjI impI allI)
  assume "map_of (c_dispatchers c) guid \<noteq> None"
  with par show "newDispatcher parent object type initializer isScope guid c = (Threw assertionError, c)"
    by (auto simp: newDispatcher_def Let_def split: parentRef.splits)
next
  fix a c'
  assume r: "newDispatcher parent object type initializer isScope guid c = (Returned a, c')"
  then have fresh: "map_of (c_dispatchers c) guid = None"
    by (auto simp: newDispatcher_def Let_def split: if_splits)
  from r show "a = length (heap c)"
    by (auto simp: newDispatcher_def Let_def split: if_splits option.splits parentRef.splits)
  from r show "d_guid (heap c' ! a) = guid"
    by (auto simp: newDispatcher_def Let_def nth_heap_modify nth_append
        split: if_splits option.splits parentRef.splits)
  from r show "map_of (c_dispatchers c') guid = Some a"
    by (auto simp: newDispatcher_def Let_def update_conv'
        split: if_splits option.splits parentRef.splits)
  fix x assume x: "x < length (heap c)" "\<not> d_disposed (heap c ! x)"
  from wellFormedD_registered [OF wf x] fresh show "d_guid (heap c ! x) \<noteq> guid" by auto
qed

theorem newDispatcher_guid_witness:
  "wellFormed exampleConnection
   \<and> newDispatcher (ParentDispatcher 2) PlainObject ''Page'' (Obj []) True ''page@3'' exampleConnection
       = (Threw assertionError, exampleConnection)
   \<and> fst (newDispatcher (ParentDispatcher 2) PlainObject ''Page'' (Obj []) True ''page@5'' exampleConnection)
       = Returned 5
   \<and> d_guid (heap exampleConnection ! 3) \<noteq> ''page@5''"
proof -
  have p: "case ParentDispatcher 2 of ParentConnection \<Rightarrow> True | ParentDispatcher p \<Rightarrow> p < length (heap exampleConnection)"
    by (simp add: exampleConnection_eq)
  have f: "fst (newDispatcher (ParentDispatcher 2) PlainObject ''Page'' (Obj []) True ''page@5'' exampleConnection)
       = Returned 5"
    by (simp add: exampleConnection_eq newDispatcher_def Let_def)
  then have r: "newDispatcher (ParentDispatcher 2) PlainObject ''Page'' (Obj []) True ''page@5'' exampleConnection
    = (Returned 5, snd (newDispatcher (ParentDispatcher 2) PlainObject ''Page'' (Obj []) True ''page@5'' exampleConnection))"
    by (metis prod.collapse)
  have reg: "map_of (c_dispatchers exampleConnection) ''page@3'' \<noteq> None"
    "3 < length (heap exampleConnection)" "\<not> d_disposed (heap exampleConnection ! 3)"
    by (simp_all add: exampleConnection_eq)
  from newDispatcher_guid [OF wellFormed_exampleConnection p, of "''page@3''" PlainObject "''Page''" "Obj []" True] reg
  have 1: "newDispatcher (ParentDispatcher 2) PlainObject ''Page'' (Obj []) True ''page@3'' exampleConnection
       = (Threw assertionError, exampleConnection)" by blast
  from newDispatcher_guid [OF wellFormed_exampleConnection p, of "''page@5''" PlainObject "''Page''" "Obj []" True] r reg
  have 2: "d_guid (heap exampleConnection ! 3) \<noteq> ''page@5''" by blast
  from 1 2 f wellFormed_exampleConnection show ?thesis by simp
qed

text \<open>
  C6 as stated fails: in the example the frame has the identifier \<^verbatim>\<open>frame@4\<close>; after
  \<^verbatim>\<open>dispose()\<close> on the frame the registry has nothing under \<^verbatim>\<open>frame@4\<close>, and the
  constructor called with \<^verbatim>\<open>frame@4\<close> returns a new node, node 5, with that identifier.
\<close>

theorem guid_reused_counterexample:
  "d_guid (heap exampleConnection ! 4) = ''frame@4''
   \<and> dispose 4 exampleConnection = (Returned (), reusedGuidBefore)
   \<and> map_of (c_dispatchers reusedGuidBefore) ''frame@4'' = None
   \<and> fst (newDispatcher (ParentDispatcher 3) PlainObject ''Frame'' (Obj []) False ''frame@4''
            reusedGuidBefore) = Returned 5
   \<and> d_guid (heap (snd (newDispatcher (ParentDispatcher 3) PlainObject ''Frame'' (Obj []) False
                           ''frame@4'' reusedGuidBefore)) ! 5) = ''frame@4''"
proof -
  have "dispose 4 exampleConnection = (Returned (), reusedGuidBefore)"
    unfolding reusedGuidBefore_eq
    by (simp add: exampleConnection_eq dispose.simps markDisposed_def cleanUp_def
      finishDispose_def childDispatchers_def modify_def sendMessageToClient_def Let_def)
  then show ?thesis
    by (simp add: reusedGuidBefore_eq newDispatcher_def modify_def sendMessageToClient_def Let_def)
       (simp add: exampleConnection_eq)
qed




text \<open>
  C8. When \<^verbatim>\<open>dispose()\<close> on a node has returned, the node is disposed, and a second
  \<^verbatim>\<open>dispose()\<close> on it throws the assertion error and leaves the connection exactly as it
  found it: it unlinks nothing and sends nothing. The same holds in every connection
  in which the node's disposed flag is set, however that connection was reached.
\<close>

theorem dispose_twice:
  "(dispose a c = (Returned (), c') \<longrightarrow>
      a < length (heap c') \<and> d_disposed (heap c' ! a)
      \<and> dispose a c' = (Threw assertionError, c'))
   \<and> (a < length (heap c2) \<and> d_disposed (heap c2 ! a) \<longrightarrow>
      dispose a c2 = (Threw assertionError, c2))"
proof -
  have again: "dispose x k = (Threw assertionError, k)"
    if "x < length (heap k)" "d_disposed (heap k ! x)" for x k
    using that by (subst dispose.simps) simp
  have "a < length (heap c') \<and> d_disposed (heap c' ! a)" if "dispose a c = (Returned (), c')"
    using dispose_Returned_disposed [OF that] .
  with again show ?thesis by blast
qed

theorem dispose_twice_witness:
  "dispose 2 exampleConnection = (Returned (), disposedExample)
   \<and> 2 < length (heap disposedExample) \<and> d_disposed (heap disposedExample ! 2)
   \<and> dispose 2 disposedExample = (Threw assertionError, disposedExample)"
proof -
  have r: "dispose 2 exampleConnection = (Returned (), disposedExample)"
    by (simp add: disposedExample_def dispose_exampleConnection)
  from dispose_twice [of 2 exampleConnection disposedExample disposedExample] r
  show ?thesis by blast
qed

text \<open>
  C9. For every node and every event: if the node is disposed and the system is not under
  test, the call returns and the connection is unchanged (nothing is sent); if the node is
  disposed and the system is under test, the call throws (and nothing is sent); if the
  node is not disposed, the call returns and the connection has sent one more message,
  the event under the node's identifier, with the dispatchers in its parameters replaced
  by their identifiers.
\<close>

theorem dispatchEvent_cases:
  assumes "this < length (heap c)"
  shows "(d_disposed (heap c ! this) \<and> \<not> underTest \<longrightarrow>
            dispatchEvent underTest this meth params c = (Returned (), c))
       \<and> (d_disposed (heap c ! this) \<and> underTest \<longrightarrow>
            (\<exists>e. dispatchEvent underTest this meth params c = (Threw e, c)))
       \<and> (\<not> d_disposed (heap c ! this) \<longrightarrow>
            dispatchEvent underTest this meth params c =
              (Returned (),
               c\<lparr>sent := sent c @
                    [Event (d_guid (heap c ! this)) meth
                       (replaceDispatchersWithGuids (if params = Undefined then Obj [] else params))]\<rparr>))"
  using assms by (simp add: dispatchEvent_def sendMessageToClient_def)

theorem dispatchEvent_cases_witness:
  "dispatchEvent False 4 ''navigated'' Undefined disposedExample = (Returned (), disposedExample)
   \<and> (\<exists>e. dispatchEvent True 4 ''navigated'' Undefined disposedExample = (Threw e, disposedExample))
   \<and> dispatchEvent True 4 ''navigated'' (Obj [(''frame'', DispatcherV ''frame@4'')]) exampleConnection =
       (Returned (),
        exampleConnection\<lparr>sent := sent exampleConnection @
           [Event ''frame@4'' ''navigated'' (Obj [(''frame'', Obj [(''guid'', Str ''frame@4'')])])]\<rparr>)"
proof -
  have live: "4 < length (heap exampleConnection)" "\<not> d_disposed (heap exampleConnection ! 4)"
    "d_guid (heap exampleConnection ! 4) = ''frame@4''"
    by (simp_all add: exampleConnection_eq)
  show ?thesis
    using dispatchEvent_cases [OF disposedExample_node(1), of False "''navigated''" Undefined]
      dispatchEvent_cases [OF disposedExample_node(1), of True "''navigated''" Undefined]
      dispatchEvent_cases [OF live(1), of True "''navigated''" "Obj [(''frame'', DispatcherV ''frame@4'')]"]
      disposedExample_node(2) live(2,3)
    by simp
qed

text \<open>
  C10. The substitution is idempotent: applying it to its own output changes nothing,
  because the output holds no dispatcher value (and no object that is not plain, the
  other kind of value that the substitution changes).
\<close>

theorem replaceDispatchersWithGuids_idempotent:
  "replaceDispatchersWithGuids (replaceDispatchersWithGuids payload)
     = replaceDispatchersWithGuids payload
   \<and> \<not> containsDispatcher (replaceDispatchersWithGuids payload)"
  using replaceDispatchersWithGuids_fixes_clean
          [OF replaceDispatchersWithGuids_clean replaceDispatchersWithGuids_plain]
    replaceDispatchersWithGuids_clean
  by simp

end
